theory Spec2Isabelle
  imports Main "HOL-Library.Multiset" "HOL-Library.Sublist"
begin

section \<open>The worker pool of \<^verbatim>\<open>simple_thread_pool.cpp\<close>\<close>

text \<open>
  The program is a class \<^verbatim>\<open>SimpleThreadPool\<close> with a constructor that spawns
  \<^verbatim>\<open>num_workers\<close> threads running \<^verbatim>\<open>Worker()\<close>, a method \<^verbatim>\<open>Enqueue\<close>, and a
  destructor that sets \<^verbatim>\<open>stop_\<close>, notifies all waiters and joins every thread.

  It is embedded as an interleaving transition system. One step is one of the
  program's indivisible actions: acquiring a mutex, the body of a critical section
  together with the release that ends it, one call on the condition variable,
  writing one character to \<^verbatim>\<open>std::cout\<close>, spawning one thread, joining one thread.
  A scheduler picks which thread moves; every theorem quantifies over all schedules.

  The fields keep the names of the C++ members without the trailing underscore,
  which Isabelle does not accept in a name.
\<close>

subsection \<open>Threads and their program points\<close>

datatype tid = MainThread | WorkerThread nat

text \<open>
  Program points of \<^verbatim>\<open>Worker()\<close> (source lines 47--68):
  \<^item> \<open>AtLock\<close>: line 52, about to lock \<^verbatim>\<open>queue_mutex_\<close>;
  \<^item> \<open>AtPred\<close>: line 54, holding the mutex, about to evaluate the wait predicate;
  \<^item> \<open>InWait\<close>: inside \<^verbatim>\<open>cv_.wait\<close>, mutex released; blocked while the thread is in
    the wait set of \<^verbatim>\<open>cv_\<close>, and once notified it reacquires the mutex;
  \<^item> \<open>Got t\<close>: line 63, the task \<open>t\<close> moved out of the queue, about to lock \<^verbatim>\<open>cout_mutex\<close>;
  \<^item> \<open>Printing t k\<close>: line 64, holding \<^verbatim>\<open>cout_mutex\<close>, \<open>k\<close> characters of the line written;
  \<^item> \<open>Sleeping\<close>: line 66;
  \<^item> \<open>Exited\<close>: returned at line 56.
\<close>

datatype wpc = AtLock | AtPred | InWait | Got string | Printing string nat | Sleeping | Exited

text \<open>
  Program points of the owning thread. It runs what \<^verbatim>\<open>main\<close> runs, for any worker
  count and any list of messages: the constructor (loop counter \<open>i\<close>), one
  \<^verbatim>\<open>Enqueue\<close> call per message, then the destructor at the end of the scope.
\<close>

datatype mpc =
    Ctor nat
  | Client
  | Enq_lock string
  | Enq_push string
  | Enq_notify
  | Dtor_lock
  | Dtor_stop
  | Dtor_notify
  | Dtor_join nat
  | Finished

record state =
  workers :: "wpc list"             \<comment> \<open>\<^verbatim>\<open>workers_\<close>: one entry per spawned thread\<close>
  tasks :: "string list"            \<comment> \<open>\<^verbatim>\<open>tasks_\<close>: front of the queue is the head\<close>
  queue_mutex :: "tid option"       \<comment> \<open>\<^verbatim>\<open>queue_mutex_\<close>: its owner, if locked\<close>
  cv :: "nat set"                   \<comment> \<open>\<^verbatim>\<open>cv_\<close>: the workers blocked in its wait set\<close>
  stop :: bool                      \<comment> \<open>\<^verbatim>\<open>stop_\<close>\<close>
  cout_mutex :: "nat option"        \<comment> \<open>the global \<^verbatim>\<open>cout_mutex\<close>: the worker owning it\<close>
  cout :: string                    \<comment> \<open>the characters the pool has written to \<^verbatim>\<open>std::cout\<close>\<close>
  main_pc :: mpc
  num_workers :: nat                \<comment> \<open>the constructor's argument\<close>
  pending :: "string list"          \<comment> \<open>messages the owner has still to submit\<close>
  dequeued :: "string list"         \<comment> \<open>history: tasks in the order they left the queue\<close>
  executed :: "(nat \<times> string) list" \<comment> \<open>history: (worker, task) for each finished line\<close>

text \<open>
  \<open>dequeued\<close> and \<open>executed\<close> are history variables: no step reads them, they only
  record what happened so that theorems can speak about it.
\<close>

subsection \<open>The worker loop\<close>

text \<open>
  Lines 54--59 under the queue mutex: the wait predicate, the exit test, then
  \<^verbatim>\<open>front()\<close> and \<^verbatim>\<open>pop()\<close>. \<^verbatim>\<open>front()\<close> on an empty queue is undefined behaviour,
  which is the result \<open>None\<close>.
\<close>

datatype taken = Wait | Terminate | Task string "string list"

definition take_or_wait :: "bool \<Rightarrow> string list \<Rightarrow> taken option" where
  "take_or_wait st q =
     (if \<not> (st \<or> q \<noteq> []) then Some Wait
      else if st \<and> q = [] then Some Terminate
      else (case q of [] \<Rightarrow> None | t # ts \<Rightarrow> Some (Task t ts)))"

text \<open>
  Line 64 is five \<^verbatim>\<open>operator<<\<close> calls. The text that \<^verbatim>\<open>std::thread::id\<close> prints
  is implementation-defined, so it is the parameter \<open>idt\<close>; \<^verbatim>\<open>std::endl\<close> writes a
  newline. A stream does not promise that one call is indivisible, so the
  characters of the five calls reach \<^verbatim>\<open>std::cout\<close> one step at a time.
\<close>

definition pieces :: "(nat \<Rightarrow> string) \<Rightarrow> nat \<Rightarrow> string \<Rightarrow> string list" where
  "pieces idt i t = [''Thread '', idt i, '': '', t, [CHR 0x0A]]"

definition line :: "(nat \<Rightarrow> string) \<Rightarrow> nat \<times> string \<Rightarrow> string" where
  "line idt e = concat (pieces idt (fst e) (snd e))"

definition Worker :: "(nat \<Rightarrow> string) \<Rightarrow> nat \<Rightarrow> state \<Rightarrow> state option" where
  "Worker idt i s =
    (if length (workers s) \<le> i then None
     else case workers s ! i of
       AtLock \<Rightarrow>
         if queue_mutex s = None
         then Some (s\<lparr>queue_mutex := Some (WorkerThread i), workers := (workers s)[i := AtPred]\<rparr>)
         else None
     | AtPred \<Rightarrow>
         (case take_or_wait (stop s) (tasks s) of
            None \<Rightarrow> None
          | Some Wait \<Rightarrow>
              Some (s\<lparr>cv := insert i (cv s), queue_mutex := None,
                      workers := (workers s)[i := InWait]\<rparr>)
          | Some Terminate \<Rightarrow>
              Some (s\<lparr>queue_mutex := None, workers := (workers s)[i := Exited]\<rparr>)
          | Some (Task t ts) \<Rightarrow>
              Some (s\<lparr>tasks := ts, dequeued := dequeued s @ [t], queue_mutex := None,
                      workers := (workers s)[i := Got t]\<rparr>))
     | InWait \<Rightarrow>
         if i \<notin> cv s \<and> queue_mutex s = None
         then Some (s\<lparr>queue_mutex := Some (WorkerThread i), workers := (workers s)[i := AtPred]\<rparr>)
         else None
     | Got t \<Rightarrow>
         if cout_mutex s = None
         then Some (s\<lparr>cout_mutex := Some i, workers := (workers s)[i := Printing t 0]\<rparr>)
         else None
     | Printing t k \<Rightarrow>
         if k < length (line idt (i, t))
         then Some (s\<lparr>cout := cout s @ [line idt (i, t) ! k],
                      workers := (workers s)[i := Printing t (Suc k)]\<rparr>)
         else Some (s\<lparr>cout_mutex := None, executed := executed s @ [(i, t)],
                      workers := (workers s)[i := Sleeping]\<rparr>)
     | Sleeping \<Rightarrow> Some (s\<lparr>workers := (workers s)[i := AtLock]\<rparr>)
     | Exited \<Rightarrow> None)"

subsection \<open>The condition variable\<close>

text \<open>
  \<^verbatim>\<open>notify_one\<close> wakes one waiting thread if there is one; which one is the
  scheduler's choice \<open>c\<close>. \<^verbatim>\<open>notify_all\<close> wakes every waiting thread. A wait may
  also end spuriously.
\<close>

definition notify_one :: "nat \<Rightarrow> state \<Rightarrow> state option" where
  "notify_one c s =
     (if cv s = {} then Some s
      else if c \<in> cv s then Some (s\<lparr>cv := cv s - {c}\<rparr>)
      else None)"

definition notify_all :: "state \<Rightarrow> state" where
  "notify_all s = s\<lparr>cv := {}\<rparr>"

definition spurious_wakeup :: "nat \<Rightarrow> state \<Rightarrow> state option" where
  "spurious_wakeup i s = (if i \<in> cv s then Some (s\<lparr>cv := cv s - {i}\<rparr>) else None)"

subsection \<open>Constructor, Enqueue and destructor, run by the owning thread\<close>

definition main_step :: "nat \<Rightarrow> state \<Rightarrow> state option" where
  "main_step c s =
    (case main_pc s of
       Ctor i \<Rightarrow>
         if i < num_workers s
         then Some (s\<lparr>workers := workers s @ [AtLock], main_pc := Ctor (Suc i)\<rparr>)
         else Some (s\<lparr>main_pc := Client\<rparr>)
     | Client \<Rightarrow>
         (case pending s of
            [] \<Rightarrow> Some (s\<lparr>main_pc := Dtor_lock\<rparr>)
          | m # ms \<Rightarrow> Some (s\<lparr>pending := ms, main_pc := Enq_lock m\<rparr>))
     | Enq_lock m \<Rightarrow>
         if queue_mutex s = None
         then Some (s\<lparr>queue_mutex := Some MainThread, main_pc := Enq_push m\<rparr>)
         else None
     | Enq_push m \<Rightarrow>
         Some (s\<lparr>tasks := tasks s @ [m], queue_mutex := None, main_pc := Enq_notify\<rparr>)
     | Enq_notify \<Rightarrow> map_option (\<lambda>s'. s'\<lparr>main_pc := Client\<rparr>) (notify_one c s)
     | Dtor_lock \<Rightarrow>
         if queue_mutex s = None
         then Some (s\<lparr>queue_mutex := Some MainThread, main_pc := Dtor_stop\<rparr>)
         else None
     | Dtor_stop \<Rightarrow> Some (s\<lparr>stop := True, queue_mutex := None, main_pc := Dtor_notify\<rparr>)
     | Dtor_notify \<Rightarrow> Some ((notify_all s)\<lparr>main_pc := Dtor_join 0\<rparr>)
     | Dtor_join k \<Rightarrow>
         if k < length (workers s)
         then (if workers s ! k = Exited then Some (s\<lparr>main_pc := Dtor_join (Suc k)\<rparr>) else None)
         else Some (s\<lparr>main_pc := Finished\<rparr>)
     | Finished \<Rightarrow> None)"

text \<open>One call \<^verbatim>\<open>Enqueue(m)\<close> run from start to end with no other thread moving.\<close>

definition Enqueue :: "string \<Rightarrow> nat \<Rightarrow> state \<Rightarrow> state option" where
  "Enqueue m c s =
     Option.bind (Option.bind (main_step c (s\<lparr>main_pc := Enq_lock m\<rparr>)) (main_step c)) (main_step c)"

subsection \<open>Schedules\<close>

datatype action = Main nat | Work nat | Spurious nat

fun step :: "(nat \<Rightarrow> string) \<Rightarrow> action \<Rightarrow> state \<Rightarrow> state option" where
  "step idt (Main c) s = main_step c s"
| "step idt (Work i) s = Worker idt i s"
| "step idt (Spurious i) s = spurious_wakeup i s"

fun run :: "(nat \<Rightarrow> string) \<Rightarrow> action list \<Rightarrow> state \<Rightarrow> state option" where
  "run idt [] s = Some s"
| "run idt (a # as) s = (case step idt a s of None \<Rightarrow> None | Some s' \<Rightarrow> run idt as s')"

text \<open>The state in which the owner enters the constructor: \<^verbatim>\<open>stop_(false)\<close>, nothing else.\<close>

definition init :: "nat \<Rightarrow> string list \<Rightarrow> state" where
  "init n msgs =
     \<lparr>workers = [], tasks = [], queue_mutex = None, cv = {}, stop = False,
      cout_mutex = None, cout = [], main_pc = Ctor 0, num_workers = n, pending = msgs,
      dequeued = [], executed = []\<rparr>"

subsection \<open>Invariants\<close>

text \<open>
  What holds in every reachable state, one property per definition: how many
  threads exist, who owns each mutex, who is in the wait set, where the owner is
  when the flag is set, when a worker may have returned, and what the destructor
  has joined.
\<close>

fun after_stop :: "mpc \<Rightarrow> bool" where
  "after_stop Dtor_notify = True"
| "after_stop (Dtor_join k) = True"
| "after_stop Finished = True"
| "after_stop _ = False"

fun in_dtor :: "mpc \<Rightarrow> bool" where
  "in_dtor Dtor_lock = True"
| "in_dtor Dtor_stop = True"
| "in_dtor pc = after_stop pc"

fun main_holds :: "mpc \<Rightarrow> bool" where
  "main_holds (Enq_push m) = True"
| "main_holds Dtor_stop = True"
| "main_holds _ = False"

fun is_printing :: "wpc \<Rightarrow> bool" where
  "is_printing (Printing t k) = True"
| "is_printing _ = False"

fun spawned :: "mpc \<Rightarrow> nat \<Rightarrow> nat" where
  "spawned (Ctor i) n = i"
| "spawned _ n = n"

definition inv_len :: "state \<Rightarrow> bool" where
  "inv_len s \<longleftrightarrow>
     length (workers s) \<le> num_workers s \<and>
     length (workers s) = spawned (main_pc s) (num_workers s)"

definition inv_qm :: "state \<Rightarrow> bool" where
  "inv_qm s \<longleftrightarrow>
     (\<forall>i. i < length (workers s) \<longrightarrow> workers s ! i = AtPred \<longrightarrow>
          queue_mutex s = Some (WorkerThread i)) \<and>
     (main_holds (main_pc s) \<longrightarrow> queue_mutex s = Some MainThread) \<and>
     (\<forall>i. queue_mutex s = Some (WorkerThread i) \<longrightarrow>
          i < length (workers s) \<and> workers s ! i = AtPred) \<and>
     (queue_mutex s = Some MainThread \<longrightarrow> main_holds (main_pc s))"

definition inv_cm :: "state \<Rightarrow> bool" where
  "inv_cm s \<longleftrightarrow>
     (\<forall>i. i < length (workers s) \<longrightarrow> is_printing (workers s ! i) \<longrightarrow>
          cout_mutex s = Some i) \<and>
     (\<forall>i. cout_mutex s = Some i \<longrightarrow>
          i < length (workers s) \<and> is_printing (workers s ! i))"

definition inv_cv :: "state \<Rightarrow> bool" where
  "inv_cv s \<longleftrightarrow> (\<forall>i. i \<in> cv s \<longrightarrow> i < length (workers s) \<and> workers s ! i = InWait)"

definition inv_stop :: "state \<Rightarrow> bool" where
  "inv_stop s \<longleftrightarrow>
     stop s = after_stop (main_pc s) \<and> (in_dtor (main_pc s) \<longrightarrow> pending s = [])"

definition inv_exit :: "state \<Rightarrow> bool" where
  "inv_exit s \<longleftrightarrow> (Exited \<in> set (workers s) \<longrightarrow> stop s \<and> tasks s = [])"

definition inv_join :: "state \<Rightarrow> bool" where
  "inv_join s \<longleftrightarrow>
     (case main_pc s of
        Dtor_join k \<Rightarrow> k \<le> length (workers s) \<and> (\<forall>j<k. workers s ! j = Exited) \<and> cv s = {}
      | Finished \<Rightarrow> (\<forall>j<length (workers s). workers s ! j = Exited) \<and> cv s = {}
      | _ \<Rightarrow> True)"

text \<open>
  Where the submitted messages are: still with the owner (\<open>unsent\<close>), in the queue,
  in a worker's hands (\<open>inflight\<close>), or executed; and what has been written of the
  line in progress (\<open>partial_line\<close>).
\<close>

fun calling :: "mpc \<Rightarrow> string list" where
  "calling (Enq_lock m) = [m]"
| "calling (Enq_push m) = [m]"
| "calling _ = []"

definition unsent :: "state \<Rightarrow> string list" where
  "unsent s = calling (main_pc s) @ pending s"

fun held :: "wpc \<Rightarrow> string list" where
  "held (Got t) = [t]"
| "held (Printing t k) = [t]"
| "held _ = []"

definition inflight :: "state \<Rightarrow> string list" where
  "inflight s = concat (map held (workers s))"

fun written :: "(nat \<Rightarrow> string) \<Rightarrow> nat \<Rightarrow> wpc \<Rightarrow> string" where
  "written idt i (Printing t k) = take k (line idt (i, t))"
| "written idt i _ = []"

definition written_by :: "(nat \<Rightarrow> string) \<Rightarrow> nat option \<Rightarrow> wpc list \<Rightarrow> string" where
  "written_by idt owner ws =
     (case owner of None \<Rightarrow> [] | Some i \<Rightarrow> written idt i (ws ! i))"

definition partial_line :: "(nat \<Rightarrow> string) \<Rightarrow> state \<Rightarrow> string" where
  "partial_line idt s = written_by idt (cout_mutex s) (workers s)"

definition inv_fifo :: "string list \<Rightarrow> state \<Rightarrow> bool" where
  "inv_fifo msgs s \<longleftrightarrow> dequeued s @ tasks s @ unsent s = msgs"

definition inv_exec :: "state \<Rightarrow> bool" where
  "inv_exec s \<longleftrightarrow> mset (map snd (executed s)) + mset (inflight s) = mset (dequeued s)"

definition inv_single :: "state \<Rightarrow> bool" where
  "inv_single s \<longleftrightarrow>
     (length (workers s) \<le> 1 \<longrightarrow> map snd (executed s) @ inflight s = dequeued s)"

definition inv_out :: "(nat \<Rightarrow> string) \<Rightarrow> state \<Rightarrow> bool" where
  "inv_out idt s \<longleftrightarrow> cout s = concat (map (line idt) (executed s)) @ partial_line idt s"

definition inv_who :: "state \<Rightarrow> bool" where
  "inv_who s \<longleftrightarrow> (\<forall>i t. (i, t) \<in> set (executed s) \<longrightarrow> i < length (workers s))"

text \<open>
  All of them together, for a pool of \<open>n\<close> workers given the messages \<open>msgs\<close>.
\<close>

definition invariant :: "(nat \<Rightarrow> string) \<Rightarrow> nat \<Rightarrow> string list \<Rightarrow> state \<Rightarrow> bool" where
  "invariant idt n msgs s \<longleftrightarrow>
     num_workers s = n \<and> inv_len s \<and> inv_qm s \<and> inv_cm s \<and> inv_cv s \<and> inv_stop s \<and>
     inv_exit s \<and> inv_join s \<and> inv_fifo msgs s \<and> inv_exec s \<and> inv_single s \<and>
     inv_out idt s \<and> inv_who s"

fun is_spurious :: "action \<Rightarrow> bool" where
  "is_spurious (Spurious i) = True"
| "is_spurious _ = False"

subsection \<open>A bound on the length of runs\<close>

text \<open>
  A bound on the number of steps. \<open>linecost\<close> bounds the length of any line a
  worker of the pool can write for a task; \<open>wcost\<close> bounds the steps a worker can
  take from its program point before it needs a new task or a wake-up; a task in
  the queue, a message still to be submitted and a wake-up still to be delivered
  are paid for in advance.
\<close>

definition linecost :: "(nat \<Rightarrow> string) \<Rightarrow> nat \<Rightarrow> string \<Rightarrow> nat" where
  "linecost idt n t = 10 + (\<Sum>i<n. length (idt i)) + length t"

fun wcost :: "(nat \<Rightarrow> string) \<Rightarrow> nat \<Rightarrow> nat \<Rightarrow> wpc \<Rightarrow> nat" where
  "wcost idt n i AtLock = 2"
| "wcost idt n i AtPred = 1"
| "wcost idt n i InWait = 2"
| "wcost idt n i (Got t) = 5 + linecost idt n t"
| "wcost idt n i (Printing t k) = 4 + (length (line idt (i, t)) - k)"
| "wcost idt n i Sleeping = 3"
| "wcost idt n i Exited = 0"

fun wsum :: "(nat \<Rightarrow> string) \<Rightarrow> nat \<Rightarrow> nat \<Rightarrow> wpc list \<Rightarrow> nat" where
  "wsum idt n i [] = 0"
| "wsum idt n i (w # ws) = wcost idt n i w + wsum idt n (Suc i) ws"

definition qcost :: "(nat \<Rightarrow> string) \<Rightarrow> nat \<Rightarrow> string list \<Rightarrow> nat" where
  "qcost idt n ts = sum_list (map (\<lambda>t. 5 + linecost idt n t) ts)"

definition pcost :: "(nat \<Rightarrow> string) \<Rightarrow> nat \<Rightarrow> string list \<Rightarrow> nat" where
  "pcost idt n ms = sum_list (map (\<lambda>m. 11 + linecost idt n m) ms)"

fun mcost :: "(nat \<Rightarrow> string) \<Rightarrow> mpc \<Rightarrow> nat \<Rightarrow> string list \<Rightarrow> nat" where
  "mcost idt (Ctor i) n p = pcost idt n p + 3 * n + 6 + 3 * (n - i)"
| "mcost idt Client n p = pcost idt n p + 3 * n + 5"
| "mcost idt (Enq_lock m) n p = pcost idt n p + 3 * n + 15 + linecost idt n m"
| "mcost idt (Enq_push m) n p = pcost idt n p + 3 * n + 14 + linecost idt n m"
| "mcost idt Enq_notify n p = pcost idt n p + 3 * n + 8"
| "mcost idt Dtor_lock n p = 3 * n + 4"
| "mcost idt Dtor_stop n p = 3 * n + 3"
| "mcost idt Dtor_notify n p = 3 * n + 2"
| "mcost idt (Dtor_join k) n p = 1 + (n - k)"
| "mcost idt Finished n p = 0"

definition potential :: "(nat \<Rightarrow> string) \<Rightarrow> state \<Rightarrow> nat" where
  "potential idt s =
     mcost idt (main_pc s) (num_workers s) (pending s) +
     wsum idt (num_workers s) 0 (workers s) +
     qcost idt (num_workers s) (tasks s) +
     2 * (num_workers s - card (cv s))"

subsection \<open>Sample runs\<close>

text \<open>
  Concrete thread ids, schedules and the states they lead to, on which the
  theorems are instantiated.
\<close>

definition example_id :: "nat \<Rightarrow> string" where
  "example_id i = (if i = 0 then ''A'' else ''B'')"

definition sched_two :: "action list" where
  "sched_two =
    [Main 0, Work 0, Main 1, Main 1, Main 0, Work 0, Work 1, Work 1, Main 0,
     Main 1, Main 1, Main 1, Main 0, Main 1, Work 1, Main 0, Main 0, Work 1,
     Work 1, Main 1, Main 0, Work 0, Work 1, Main 1, Work 0, Work 1, Work 1,
     Work 1, Work 1, Work 1, Work 1, Work 1, Work 1, Work 1, Work 1, Work 1,
     Work 1, Work 1, Work 1, Work 0, Work 0, Work 0, Work 1, Work 0, Work 0,
     Work 0, Work 1, Work 0, Work 0, Work 0, Work 0, Work 0, Work 0, Work 0,
     Work 0, Work 0, Work 0, Work 0, Work 0, Main 1, Main 0, Main 1]"

definition final_two :: state where
  "final_two =
     \<lparr>workers = [Exited, Exited], tasks = [], queue_mutex = None, cv = {}, stop = True,
      cout_mutex = None, cout = ''Thread B: m1'' @ [CHR 0x0A] @ ''Thread A: m2'' @ [CHR 0x0A],
      main_pc = Finished, num_workers = 2, pending = [],
      dequeued = [''m1'', ''m2''], executed = [(1, ''m1''), (0, ''m2'')]\<rparr>"

definition sched_none :: "action list" where
  "sched_none = replicate 10 (Main 0)"

definition final_none :: state where
  "final_none =
     \<lparr>workers = [], tasks = [''m1''], queue_mutex = None, cv = {}, stop = True,
      cout_mutex = None, cout = [], main_pc = Finished, num_workers = 0, pending = [],
      dequeued = [], executed = []\<rparr>"

definition sched_two_a :: "action list" where
  "sched_two_a =
    [Main 0, Work 0, Main 1, Main 1, Main 0, Work 0, Work 1, Work 1, Main 0,
     Main 1, Main 1, Main 1, Main 0, Main 1, Work 1, Main 0, Main 0, Work 1,
     Work 1, Main 1]"

definition sched_two_b :: "action list" where
  "sched_two_b =
    [Main 0, Work 0, Work 1, Main 1, Work 0, Work 1, Work 1, Work 1, Work 1,
     Work 1, Work 1, Work 1, Work 1, Work 1, Work 1, Work 1, Work 1, Work 1,
     Work 1, Work 0, Work 0, Work 0, Work 1, Work 0, Work 0, Work 0, Work 1,
     Work 0, Work 0, Work 0, Work 0, Work 0, Work 0, Work 0, Work 0, Work 0,
     Work 0, Work 0, Work 0, Main 1, Main 0, Main 1]"

definition mid_two :: state where
  "mid_two =
     \<lparr>workers = [InWait, Printing ''m1'' 0], tasks = [''m2''],
      queue_mutex = Some MainThread, cv = {}, stop = False, cout_mutex = Some 1, cout = [],
      main_pc = Dtor_stop, num_workers = 2, pending = [],
      dequeued = [''m1''], executed = []\<rparr>"

definition sched_none_a :: "action list" where
  "sched_none_a = replicate 11 (Main 0)"

definition sched_none_b :: "action list" where
  "sched_none_b = replicate 3 (Main 0)"

definition mid_none :: state where
  "mid_none =
     \<lparr>workers = [], tasks = [''m1'', ''m2''], queue_mutex = Some MainThread, cv = {},
      stop = False, cout_mutex = None, cout = [], main_pc = Dtor_stop, num_workers = 0,
      pending = [], dequeued = [], executed = []\<rparr>"

definition end_none :: state where
  "end_none =
     \<lparr>workers = [], tasks = [''m1'', ''m2''], queue_mutex = None, cv = {},
      stop = True, cout_mutex = None, cout = [], main_pc = Finished, num_workers = 0,
      pending = [], dequeued = [], executed = []\<rparr>"

definition sched_at_pred :: "action list" where
  "sched_at_pred = [Main 0, Main 0, Main 0, Main 0, Main 0, Main 0, Work 0]"

definition at_pred_one :: state where
  "at_pred_one =
     \<lparr>workers = [AtPred], tasks = [''m1''], queue_mutex = Some (WorkerThread 0), cv = {},
      stop = False, cout_mutex = None, cout = [], main_pc = Client, num_workers = 1,
      pending = [], dequeued = [], executed = []\<rparr>"

definition sched_one :: "action list" where
  "sched_one =
    [Main 0, Work 0, Main 0, Work 0, Main 0, Main 0, Main 0, Main 0, Main 0,
     Work 0, Work 0, Work 0, Main 0, Work 0, Main 0, Work 0, Main 0, Work 0,
     Main 0, Work 0, Main 0, Work 0, Main 0, Work 0, Main 0, Work 0, Work 0,
     Work 0, Work 0, Work 0, Work 0, Work 0, Work 0, Work 0, Work 0, Work 0,
     Work 0, Work 0, Work 0, Work 0, Work 0, Work 0, Work 0, Work 0, Work 0,
     Work 0, Work 0, Work 0, Work 0, Work 0, Work 0, Work 0, Work 0, Work 0,
     Main 0, Main 0]"

definition final_one :: state where
  "final_one =
     \<lparr>workers = [Exited], tasks = [], queue_mutex = None, cv = {}, stop = True,
      cout_mutex = None, cout = ''Thread A: m1'' @ [CHR 0x0A] @ ''Thread A: m2'' @ [CHR 0x0A],
      main_pc = Finished, num_workers = 1, pending = [],
      dequeued = [''m1'', ''m2''], executed = [(0, ''m1''), (0, ''m2'')]\<rparr>"

definition woken_one :: state where
  "woken_one =
     \<lparr>workers = [InWait], tasks = [''m1''], queue_mutex = None, cv = {}, stop = False,
      cout_mutex = None, cout = [], main_pc = Client, num_workers = 1, pending = [''m1''],
      dequeued = [], executed = []\<rparr>"

definition sched_two_c :: "action list" where
  "sched_two_c =
    [Main 0, Work 0, Main 1, Main 1, Main 0, Work 0, Work 1, Work 1, Main 0,
     Main 1, Main 1, Main 1, Main 0, Main 1, Work 1, Main 0, Main 0, Work 1,
     Work 1, Main 1, Main 0, Work 0, Work 1, Main 1, Work 1, Work 1, Work 1]"

definition printing_two :: state where
  "printing_two =
     \<lparr>workers = [AtPred, Printing ''m1'' 4], tasks = [''m2''],
      queue_mutex = Some (WorkerThread 0), cv = {}, stop = True, cout_mutex = Some 1,
      cout = ''Thre'', main_pc = Dtor_join 0, num_workers = 2, pending = [],
      dequeued = [''m1''], executed = []\<rparr>"

definition printing_line :: "(nat \<Rightarrow> string) \<Rightarrow> state \<Rightarrow> string" where
  "printing_line idt s =
     (case cout_mutex s of
        None \<Rightarrow> []
      | Some i \<Rightarrow> (case workers s ! i of Printing t k \<Rightarrow> line idt (i, t) | _ \<Rightarrow> []))"

text \<open>The steps the owning thread still has to take before the destructor returns.\<close>

fun owner_steps :: "mpc \<Rightarrow> nat \<Rightarrow> nat \<Rightarrow> nat" where
  "owner_steps (Ctor i) n p = 4 * p + n + 6 + (n - i)"
| "owner_steps Client n p = 4 * p + n + 5"
| "owner_steps (Enq_lock m) n p = 4 * p + n + 8"
| "owner_steps (Enq_push m) n p = 4 * p + n + 7"
| "owner_steps Enq_notify n p = 4 * p + n + 6"
| "owner_steps Dtor_lock n p = n + 4"
| "owner_steps Dtor_stop n p = n + 3"
| "owner_steps Dtor_notify n p = n + 2"
| "owner_steps (Dtor_join k) n p = 1 + (n - k)"
| "owner_steps Finished n p = 0"

definition owner_left :: "state \<Rightarrow> nat" where
  "owner_left s = owner_steps (main_pc s) (num_workers s) (length (pending s))"

fun is_main :: "action \<Rightarrow> bool" where
  "is_main (Main c) = True"
| "is_main _ = False"

definition sched_three :: "action list" where
  "sched_three =
    [Main 0, Work 0, Main 0, Main 0, Main 0, Main 0, Work 0, Work 1, Work 1,
     Spurious 1, Main 0, Main 0, Work 1, Main 0, Work 1, Work 0, Work 0,
     Work 2, Work 2, Main 0, Main 0, Main 0, Main 0]"

definition final_three :: state where
  "final_three =
     \<lparr>workers = [Exited, Exited, Exited], tasks = [], queue_mutex = None, cv = {},
      stop = True, cout_mutex = None, cout = [], main_pc = Finished, num_workers = 3,
      pending = [], dequeued = [], executed = []\<rparr>"

section \<open>Proofs\<close>

subsection \<open>The steps, case by case\<close>

lemma Worker_SomeE:
  assumes "Worker idt i s = Some s'"
  obtains
    (lock) "i < length (workers s)" "workers s ! i = AtLock" "queue_mutex s = None"
      "s' = s\<lparr>queue_mutex := Some (WorkerThread i), workers := (workers s)[i := AtPred]\<rparr>"
  | (relock) "i < length (workers s)" "workers s ! i = InWait" "i \<notin> cv s" "queue_mutex s = None"
      "s' = s\<lparr>queue_mutex := Some (WorkerThread i), workers := (workers s)[i := AtPred]\<rparr>"
  | (wait) "i < length (workers s)" "workers s ! i = AtPred" "\<not> stop s" "tasks s = []"
      "s' = s\<lparr>cv := insert i (cv s), queue_mutex := None, workers := (workers s)[i := InWait]\<rparr>"
  | (exit) "i < length (workers s)" "workers s ! i = AtPred" "stop s" "tasks s = []"
      "s' = s\<lparr>queue_mutex := None, workers := (workers s)[i := Exited]\<rparr>"
  | (take) t ts where "i < length (workers s)" "workers s ! i = AtPred" "tasks s = t # ts"
      "s' = s\<lparr>tasks := ts, dequeued := dequeued s @ [t], queue_mutex := None,
              workers := (workers s)[i := Got t]\<rparr>"
  | (cout_lock) t where "i < length (workers s)" "workers s ! i = Got t" "cout_mutex s = None"
      "s' = s\<lparr>cout_mutex := Some i, workers := (workers s)[i := Printing t 0]\<rparr>"
  | (put) t k where "i < length (workers s)" "workers s ! i = Printing t k"
      "k < length (line idt (i, t))"
      "s' = s\<lparr>cout := cout s @ [line idt (i, t) ! k],
              workers := (workers s)[i := Printing t (Suc k)]\<rparr>"
  | (cout_unlock) t k where "i < length (workers s)" "workers s ! i = Printing t k"
      "length (line idt (i, t)) \<le> k"
      "s' = s\<lparr>cout_mutex := None, executed := executed s @ [(i, t)],
              workers := (workers s)[i := Sleeping]\<rparr>"
  | (slept) "i < length (workers s)" "workers s ! i = Sleeping"
      "s' = s\<lparr>workers := (workers s)[i := AtLock]\<rparr>"
proof -
  from assms have i: "i < length (workers s)"
    by (simp add: Worker_def split: if_splits)
  show thesis
  proof (cases "workers s ! i")
    case AtLock with assms i lock show ?thesis
      by (simp add: Worker_def split: if_splits)
  next
    case AtPred with assms i wait exit take show ?thesis
      by (auto simp add: Worker_def take_or_wait_def split: if_splits list.splits)
  next
    case InWait with assms i relock show ?thesis
      by (simp add: Worker_def split: if_splits)
  next
    case (Got t) with assms i cout_lock show ?thesis
      by (simp add: Worker_def split: if_splits)
  next
    case (Printing t k) with assms i put[of t k] cout_unlock[of t k] show ?thesis
      by (simp add: Worker_def split: if_splits)
  next
    case Sleeping with assms i slept show ?thesis
      by (simp add: Worker_def)
  next
    case Exited with assms i show ?thesis
      by (simp add: Worker_def)
  qed
qed

lemma main_step_SomeE:
  assumes "main_step c s = Some s'"
  obtains
    (spawn) i where "main_pc s = Ctor i" "i < num_workers s"
      "s' = s\<lparr>workers := workers s @ [AtLock], main_pc := Ctor (Suc i)\<rparr>"
  | (constructed) i where "main_pc s = Ctor i" "num_workers s \<le> i" "s' = s\<lparr>main_pc := Client\<rparr>"
  | (scope_end) "main_pc s = Client" "pending s = []" "s' = s\<lparr>main_pc := Dtor_lock\<rparr>"
  | (call) m ms where "main_pc s = Client" "pending s = m # ms"
      "s' = s\<lparr>pending := ms, main_pc := Enq_lock m\<rparr>"
  | (enq_lock) m where "main_pc s = Enq_lock m" "queue_mutex s = None"
      "s' = s\<lparr>queue_mutex := Some MainThread, main_pc := Enq_push m\<rparr>"
  | (push) m where "main_pc s = Enq_push m"
      "s' = s\<lparr>tasks := tasks s @ [m], queue_mutex := None, main_pc := Enq_notify\<rparr>"
  | (notify_none) "main_pc s = Enq_notify" "cv s = {}" "s' = s\<lparr>main_pc := Client\<rparr>"
  | (notify_some) "main_pc s = Enq_notify" "c \<in> cv s" "s' = s\<lparr>cv := cv s - {c}, main_pc := Client\<rparr>"
  | (dtor_lock) "main_pc s = Dtor_lock" "queue_mutex s = None"
      "s' = s\<lparr>queue_mutex := Some MainThread, main_pc := Dtor_stop\<rparr>"
  | (set_stop) "main_pc s = Dtor_stop"
      "s' = s\<lparr>stop := True, queue_mutex := None, main_pc := Dtor_notify\<rparr>"
  | (broadcast) "main_pc s = Dtor_notify" "s' = s\<lparr>cv := {}, main_pc := Dtor_join 0\<rparr>"
  | (join) k where "main_pc s = Dtor_join k" "k < length (workers s)" "workers s ! k = Exited"
      "s' = s\<lparr>main_pc := Dtor_join (Suc k)\<rparr>"
  | (joined) k where "main_pc s = Dtor_join k" "length (workers s) \<le> k" "s' = s\<lparr>main_pc := Finished\<rparr>"
proof (cases "main_pc s")
  case (Ctor i) with assms spawn[of i] constructed[of i] show ?thesis
    by (simp add: main_step_def split: if_splits)
next
  case Client with assms scope_end call show ?thesis
    by (simp add: main_step_def split: list.splits)
next
  case (Enq_lock m) with assms enq_lock show ?thesis
    by (simp add: main_step_def split: if_splits)
next
  case (Enq_push m) with assms push show ?thesis
    by (simp add: main_step_def)
next
  case Enq_notify with assms notify_none notify_some show ?thesis
    by (auto simp add: main_step_def notify_one_def split: if_splits)
next
  case Dtor_lock with assms dtor_lock show ?thesis
    by (simp add: main_step_def split: if_splits)
next
  case Dtor_stop with assms set_stop show ?thesis
    by (simp add: main_step_def)
next
  case Dtor_notify with assms broadcast show ?thesis
    by (simp add: main_step_def notify_all_def)
next
  case (Dtor_join k) with assms join[of k] joined[of k] show ?thesis
    by (simp add: main_step_def split: if_splits)
next
  case Finished with assms show ?thesis
    by (simp add: main_step_def)
qed

lemma spurious_SomeE:
  assumes "spurious_wakeup i s = Some s'"
  obtains "i \<in> cv s" "s' = s\<lparr>cv := cv s - {i}\<rparr>"
  using assms by (simp add: spurious_wakeup_def split: if_splits)

subsection \<open>Every step preserves the invariants\<close>

lemma inv_len_step:
  assumes "inv_len s" "step idt a s = Some s'"
  shows "inv_len s'"
proof (cases a)
  case (Main c)
  with assms show ?thesis
    by (auto elim!: main_step_SomeE simp: inv_len_def)
next
  case (Work i)
  with assms show ?thesis
    by (auto elim!: Worker_SomeE simp: inv_len_def)
next
  case (Spurious i)
  with assms show ?thesis
    by (auto elim!: spurious_SomeE simp: inv_len_def)
qed

lemma inv_qmD1:
  "inv_qm s \<Longrightarrow> i < length (workers s) \<Longrightarrow> workers s ! i = AtPred \<Longrightarrow>
   queue_mutex s = Some (WorkerThread i)"
  unfolding inv_qm_def by blast

lemma inv_qmD2:
  "inv_qm s \<Longrightarrow> main_holds (main_pc s) \<Longrightarrow> queue_mutex s = Some MainThread"
  unfolding inv_qm_def by blast

lemma inv_qmD3:
  "inv_qm s \<Longrightarrow> queue_mutex s = Some (WorkerThread i) \<Longrightarrow>
   i < length (workers s) \<and> workers s ! i = AtPred"
  unfolding inv_qm_def by blast

lemma inv_qmD4:
  "inv_qm s \<Longrightarrow> queue_mutex s = Some MainThread \<Longrightarrow> main_holds (main_pc s)"
  unfolding inv_qm_def by blast

lemma inv_qm_step1:
  assumes inv: "inv_qm s" and st: "step idt a s = Some s'"
    and j: "j < length (workers s')" "workers s' ! j = AtPred"
  shows "queue_mutex s' = Some (WorkerThread j)"
proof (cases a)
  case (Main c)
  note f = inv_qmD1[OF inv, of j] inv_qmD2[OF inv]
  from Main st have "main_step c s = Some s'" by simp
  then show ?thesis using j f
    by (cases rule: main_step_SomeE) (auto simp: nth_append split: if_splits)
next
  case (Work i)
  note f = inv_qmD1[OF inv, of j] inv_qmD1[OF inv, of i]
  from Work st have "Worker idt i s = Some s'" by simp
  then show ?thesis using j f
    by (cases rule: Worker_SomeE) (auto simp: nth_list_update split: if_splits)
next
  case (Spurious i)
  note f = inv_qmD1[OF inv, of j]
  from Spurious st have "spurious_wakeup i s = Some s'" by simp
  then show ?thesis using j f
    by (cases rule: spurious_SomeE) auto
qed

lemma inv_qm_step2:
  assumes inv: "inv_qm s" and st: "step idt a s = Some s'"
    and j: "main_holds (main_pc s')"
  shows "queue_mutex s' = Some MainThread"
proof (cases a)
  case (Main c)
  note f = inv_qmD2[OF inv]
  from Main st have "main_step c s = Some s'" by simp
  then show ?thesis using j f
    by (cases rule: main_step_SomeE) auto
next
  case (Work i)
  note f = inv_qmD2[OF inv] inv_qmD1[OF inv, of i]
  from Work st have "Worker idt i s = Some s'" by simp
  then show ?thesis using j f
    by (cases rule: Worker_SomeE) auto
next
  case (Spurious i)
  note f = inv_qmD2[OF inv]
  from Spurious st have "spurious_wakeup i s = Some s'" by simp
  then show ?thesis using j f
    by (cases rule: spurious_SomeE) auto
qed

lemma inv_qm_step3:
  assumes inv: "inv_qm s" and st: "step idt a s = Some s'"
    and j: "queue_mutex s' = Some (WorkerThread j)"
  shows "j < length (workers s') \<and> workers s' ! j = AtPred"
proof (cases a)
  case (Main c)
  note f = inv_qmD3[OF inv, of j]
  from Main st have "main_step c s = Some s'" by simp
  then show ?thesis using j f
    by (cases rule: main_step_SomeE) (auto simp: nth_append)
next
  case (Work i)
  note f = inv_qmD3[OF inv, of j]
  from Work st have "Worker idt i s = Some s'" by simp
  then show ?thesis using j f
    by (cases rule: Worker_SomeE) (auto simp: nth_list_update)
next
  case (Spurious i)
  note f = inv_qmD3[OF inv, of j]
  from Spurious st have "spurious_wakeup i s = Some s'" by simp
  then show ?thesis using j f
    by (cases rule: spurious_SomeE) auto
qed

lemma inv_qm_step4:
  assumes inv: "inv_qm s" and st: "step idt a s = Some s'"
    and j: "queue_mutex s' = Some MainThread"
  shows "main_holds (main_pc s')"
proof (cases a)
  case (Main c)
  note f = inv_qmD4[OF inv]
  from Main st have "main_step c s = Some s'" by simp
  then show ?thesis using j f
    by (cases rule: main_step_SomeE) auto
next
  case (Work i)
  note f = inv_qmD4[OF inv]
  from Work st have "Worker idt i s = Some s'" by simp
  then show ?thesis using j f
    by (cases rule: Worker_SomeE) auto
next
  case (Spurious i)
  note f = inv_qmD4[OF inv]
  from Spurious st have "spurious_wakeup i s = Some s'" by simp
  then show ?thesis using j f
    by (cases rule: spurious_SomeE) auto
qed

lemma inv_qm_step:
  assumes "inv_qm s" "step idt a s = Some s'"
  shows "inv_qm s'"
  unfolding inv_qm_def
  using inv_qm_step1[OF assms] inv_qm_step2[OF assms] inv_qm_step3[OF assms] inv_qm_step4[OF assms]
  by blast

lemma inv_cmD1:
  "inv_cm s \<Longrightarrow> i < length (workers s) \<Longrightarrow> is_printing (workers s ! i) \<Longrightarrow> cout_mutex s = Some i"
  unfolding inv_cm_def by blast

lemma inv_cmD2:
  "inv_cm s \<Longrightarrow> cout_mutex s = Some i \<Longrightarrow> i < length (workers s) \<and> is_printing (workers s ! i)"
  unfolding inv_cm_def by blast

lemma inv_cm_step1:
  assumes inv: "inv_cm s" and st: "step idt a s = Some s'"
    and j: "j < length (workers s')" "is_printing (workers s' ! j)"
  shows "cout_mutex s' = Some j"
proof (cases a)
  case (Main c)
  note f = inv_cmD1[OF inv, of j]
  from Main st have "main_step c s = Some s'" by simp
  then show ?thesis using j f
    by (cases rule: main_step_SomeE) (auto simp: nth_append split: if_splits)
next
  case (Work i)
  note f = inv_cmD1[OF inv, of j] inv_cmD1[OF inv, of i]
  from Work st have "Worker idt i s = Some s'" by simp
  then show ?thesis using j f
    by (cases rule: Worker_SomeE) (auto simp: nth_list_update split: if_splits)
next
  case (Spurious i)
  note f = inv_cmD1[OF inv, of j]
  from Spurious st have "spurious_wakeup i s = Some s'" by simp
  then show ?thesis using j f
    by (cases rule: spurious_SomeE) auto
qed

lemma inv_cm_step2:
  assumes inv: "inv_cm s" and st: "step idt a s = Some s'"
    and j: "cout_mutex s' = Some j"
  shows "j < length (workers s') \<and> is_printing (workers s' ! j)"
proof (cases a)
  case (Main c)
  note f = inv_cmD2[OF inv, of j]
  from Main st have "main_step c s = Some s'" by simp
  then show ?thesis using j f
    by (cases rule: main_step_SomeE) (auto simp: nth_append)
next
  case (Work i)
  note f = inv_cmD2[OF inv, of j] inv_cmD1[OF inv, of i]
  from Work st have "Worker idt i s = Some s'" by simp
  then show ?thesis using j f
    by (cases rule: Worker_SomeE) (auto simp: nth_list_update split: if_splits)
next
  case (Spurious i)
  note f = inv_cmD2[OF inv, of j]
  from Spurious st have "spurious_wakeup i s = Some s'" by simp
  then show ?thesis using j f
    by (cases rule: spurious_SomeE) auto
qed

lemma inv_cm_step:
  assumes "inv_cm s" "step idt a s = Some s'"
  shows "inv_cm s'"
  unfolding inv_cm_def
  using inv_cm_step1[OF assms] inv_cm_step2[OF assms]
  by blast

lemma inv_cv_step:
  assumes "inv_cv s" "step idt a s = Some s'"
  shows "inv_cv s'"
proof (cases a)
  case (Main c)
  with assms show ?thesis
    by (auto elim!: main_step_SomeE simp: inv_cv_def nth_append less_Suc_eq)
next
  case (Work i)
  with assms have "Worker idt i s = Some s'" by simp
  then show ?thesis using assms(1)
    by (cases rule: Worker_SomeE) (auto simp: inv_cv_def nth_list_update)
next
  case (Spurious i)
  with assms show ?thesis
    by (auto elim!: spurious_SomeE simp: inv_cv_def)
qed

lemma inv_stop_step:
  assumes "inv_stop s" "step idt a s = Some s'"
  shows "inv_stop s'"
proof (cases a)
  case (Main c)
  with assms show ?thesis
    by (auto elim!: main_step_SomeE simp: inv_stop_def)
next
  case (Work i)
  with assms have "Worker idt i s = Some s'" by simp
  then show ?thesis using assms(1)
    by (cases rule: Worker_SomeE) (auto simp: inv_stop_def)
next
  case (Spurious i)
  with assms show ?thesis
    by (auto elim!: spurious_SomeE simp: inv_stop_def)
qed

lemma inv_exit_step:
  assumes "inv_exit s" "inv_stop s" "step idt a s = Some s'"
  shows "inv_exit s'"
proof (cases a)
  case (Main c)
  with assms show ?thesis
    by (auto elim!: main_step_SomeE simp: inv_exit_def inv_stop_def)
next
  case (Work i)
  with assms have "Worker idt i s = Some s'" by simp
  then show ?thesis using assms(1)
    by (cases rule: Worker_SomeE) (auto simp: inv_exit_def dest!: subsetD[OF set_update_subset_insert])
next
  case (Spurious i)
  with assms show ?thesis
    by (auto elim!: spurious_SomeE simp: inv_exit_def)
qed

lemma inv_join_step:
  assumes "inv_join s" "inv_stop s" "step idt a s = Some s'"
  shows "inv_join s'"
proof (cases a)
  case (Main c)
  with assms show ?thesis
    by (auto elim!: main_step_SomeE simp: inv_join_def less_Suc_eq)
next
  case (Work i)
  with assms have "Worker idt i s = Some s'" by simp
  then show ?thesis using assms(1,2)
    by (cases rule: Worker_SomeE)
       (auto simp: inv_join_def inv_stop_def nth_list_update split: mpc.splits)
next
  case (Spurious i)
  with assms show ?thesis
    by (auto elim!: spurious_SomeE simp: inv_join_def split: mpc.splits)
qed

lemma concat_held_update:
  assumes "i < length ws"
  shows "mset (concat (map held (ws[i := v]))) + mset (held (ws ! i)) =
         mset (concat (map held ws)) + mset (held v)"
proof -
  have "ws = take i ws @ ws ! i # drop (Suc i) ws"
    using assms by (simp add: id_take_nth_drop)
  moreover have "ws[i := v] = take i ws @ v # drop (Suc i) ws"
    using assms by (simp add: upd_conv_take_nth_drop)
  ultimately have
    "mset (concat (map held (ws[i := v]))) + mset (held (ws ! i)) =
     mset (concat (map held (take i ws @ v # drop (Suc i) ws))) + mset (held (ws ! i))"
    "mset (concat (map held ws)) + mset (held v) =
     mset (concat (map held (take i ws @ ws ! i # drop (Suc i) ws))) + mset (held v)"
    by simp_all
  then show ?thesis by simp
qed

lemma concat_held_update_same:
  assumes "i < length ws" "held v = held (ws ! i)"
  shows "mset (concat (map held (ws[i := v]))) = mset (concat (map held ws))"
  using concat_held_update[OF assms(1), of v] assms(2) by simp

lemma inv_fifo_step:
  assumes "inv_fifo msgs s" "step idt a s = Some s'"
  shows "inv_fifo msgs s'"
proof (cases a)
  case (Main c)
  with assms have "main_step c s = Some s'" by simp
  then show ?thesis using assms(1)
    by (cases rule: main_step_SomeE) (auto simp: inv_fifo_def unsent_def)
next
  case (Work i)
  with assms have "Worker idt i s = Some s'" by simp
  then show ?thesis using assms(1)
    by (cases rule: Worker_SomeE) (auto simp: inv_fifo_def unsent_def)
next
  case (Spurious i)
  with assms show ?thesis
    by (auto elim!: spurious_SomeE simp: inv_fifo_def unsent_def)
qed

lemma inv_exec_step:
  assumes "inv_exec s" "step idt a s = Some s'"
  shows "inv_exec s'"
proof (cases a)
  case (Main c)
  with assms have "main_step c s = Some s'" by simp
  then show ?thesis using assms(1)
    by (cases rule: main_step_SomeE) (auto simp: inv_exec_def inflight_def)
next
  case (Work i)
  with assms have "Worker idt i s = Some s'" by simp
  then show ?thesis using assms(1)
  proof (cases rule: Worker_SomeE)
    case (take t ts)
    from concat_held_update[OF take(1), of "Got t"] take assms(1) show ?thesis
      by (simp add: inv_exec_def inflight_def)
  next
    case (cout_unlock t k)
    from concat_held_update[OF cout_unlock(1), of Sleeping] cout_unlock
    have "mset (concat (map held (workers s))) =
          add_mset t (mset (concat (map held ((workers s)[i := Sleeping]))))"
      by simp
    with cout_unlock assms(1) show ?thesis
      by (simp add: inv_exec_def inflight_def)
  qed (simp_all add: inv_exec_def inflight_def concat_held_update_same)
next
  case (Spurious i)
  with assms show ?thesis
    by (auto elim!: spurious_SomeE simp: inv_exec_def inflight_def)
qed

lemma single_worker:
  assumes "i < length ws" "length ws \<le> Suc 0"
  shows "ws = [ws ! i]" "ws[i := v] = [v]"
  using assms by (cases ws; simp)+

lemma inv_single_step:
  assumes "inv_single s" "step idt a s = Some s'"
  shows "inv_single s'"
proof (cases a)
  case (Main c)
  with assms have "main_step c s = Some s'" by simp
  then show ?thesis using assms(1)
    by (cases rule: main_step_SomeE) (auto simp: inv_single_def inflight_def)
next
  case (Work i)
  with assms have st: "Worker idt i s = Some s'" by simp
  show ?thesis
  proof (cases "length (workers s) \<le> Suc 0")
    case True
    with assms(1) have eq: "map snd (executed s) @ inflight s = dequeued s"
      by (simp add: inv_single_def)
    from st have i: "i < length (workers s)"
      by (cases rule: Worker_SomeE)
    note sw = single_worker[OF i True]
    have fl: "concat (map held (workers s)) = held pc" if "workers s ! i = pc" for pc
    proof -
      from sw(1) that have "workers s = [pc]" by simp
      then show ?thesis by simp
    qed
    from st show ?thesis using eq sw(2)
    proof (cases rule: Worker_SomeE)
      case lock
      with eq sw(2) fl[OF lock(2)] show ?thesis by (simp add: inv_single_def inflight_def)
    next
      case relock
      with eq sw(2) fl[OF relock(2)] show ?thesis by (simp add: inv_single_def inflight_def)
    next
      case wait
      with eq sw(2) fl[OF wait(2)] show ?thesis by (simp add: inv_single_def inflight_def)
    next
      case exit
      with eq sw(2) fl[OF exit(2)] show ?thesis by (simp add: inv_single_def inflight_def)
    next
      case (take t ts)
      with eq sw(2) fl[OF take(2)] show ?thesis by (simp add: inv_single_def inflight_def)
    next
      case (cout_lock t)
      with eq sw(2) fl[OF cout_lock(2)] show ?thesis by (simp add: inv_single_def inflight_def)
    next
      case (put t k)
      with eq sw(2) fl[OF put(2)] show ?thesis by (simp add: inv_single_def inflight_def)
    next
      case (cout_unlock t k)
      with eq sw(2) fl[OF cout_unlock(2)] show ?thesis by (simp add: inv_single_def inflight_def)
    next
      case slept
      with eq sw(2) fl[OF slept(2)] show ?thesis by (simp add: inv_single_def inflight_def)
    qed
  next
    case False
    from st have "length (workers s') = length (workers s)"
      by (cases rule: Worker_SomeE) simp_all
    with False show ?thesis by (simp add: inv_single_def)
  qed
next
  case (Spurious i)
  with assms show ?thesis
    by (auto elim!: spurious_SomeE simp: inv_single_def inflight_def)
qed

lemma inv_who_step:
  assumes "inv_who s" "step idt a s = Some s'"
  shows "inv_who s'"
proof (cases a)
  case (Main c)
  with assms have "main_step c s = Some s'" by simp
  then show ?thesis using assms(1)
    by (cases rule: main_step_SomeE) (auto simp: inv_who_def)
next
  case (Work i)
  with assms have "Worker idt i s = Some s'" by simp
  then show ?thesis using assms(1)
    by (cases rule: Worker_SomeE) (auto simp: inv_who_def)
next
  case (Spurious i)
  with assms have "spurious_wakeup i s = Some s'" by simp
  then show ?thesis using assms(1)
    by (cases rule: spurious_SomeE) (simp add: inv_who_def)
qed

lemma partial_other:
  assumes cm: "inv_cm s" and i: "i < length (workers s)" "\<not> is_printing (workers s ! i)"
  shows "written_by idt (cout_mutex s) ((workers s)[i := v]) = partial_line idt s"
proof (cases "cout_mutex s")
  case None
  then show ?thesis by (simp add: partial_line_def written_by_def)
next
  case (Some h)
  with inv_cmD2[OF cm, of h] i have "h \<noteq> i" by auto
  with Some show ?thesis by (simp add: partial_line_def written_by_def)
qed

lemma partial_spawn:
  assumes cm: "inv_cm s"
  shows "written_by idt (cout_mutex s) (workers s @ [v]) = partial_line idt s"
proof (cases "cout_mutex s")
  case None
  then show ?thesis by (simp add: partial_line_def written_by_def)
next
  case (Some h)
  with inv_cmD2[OF cm, of h] have "h < length (workers s)" by auto
  with Some show ?thesis by (simp add: partial_line_def written_by_def nth_append)
qed

lemma inv_out_step:
  assumes out: "inv_out idt s" and cm: "inv_cm s" and st: "step idt a s = Some s'"
  shows "inv_out idt s'"
proof (cases a)
  case (Main c)
  with st have "main_step c s = Some s'" by simp
  then show ?thesis using out partial_spawn[OF cm, of idt AtLock]
    by (cases rule: main_step_SomeE) (simp_all add: inv_out_def partial_line_def)
next
  case (Work i)
  with st have "Worker idt i s = Some s'" by simp
  then show ?thesis
  proof (cases rule: Worker_SomeE)
    case lock
    with partial_other[OF cm, of i idt AtPred] out show ?thesis
      by (simp add: inv_out_def partial_line_def)
  next
    case relock
    with partial_other[OF cm, of i idt AtPred] out show ?thesis
      by (simp add: inv_out_def partial_line_def)
  next
    case wait
    with partial_other[OF cm, of i idt InWait] out show ?thesis
      by (simp add: inv_out_def partial_line_def)
  next
    case exit
    with partial_other[OF cm, of i idt Exited] out show ?thesis
      by (simp add: inv_out_def partial_line_def)
  next
    case (take t ts)
    with partial_other[OF cm, of i idt "Got t"] out show ?thesis
      by (simp add: inv_out_def partial_line_def)
  next
    case slept
    with partial_other[OF cm, of i idt AtLock] out show ?thesis
      by (simp add: inv_out_def partial_line_def)
  next
    case (cout_lock t)
    with out show ?thesis
      by (simp add: inv_out_def partial_line_def written_by_def)
  next
    case (put t k)
    with inv_cmD1[OF cm, of i] have "cout_mutex s = Some i" by simp
    with put out show ?thesis
      by (simp add: inv_out_def partial_line_def written_by_def take_Suc_conv_app_nth)
  next
    case (cout_unlock t k)
    with inv_cmD1[OF cm, of i] have "cout_mutex s = Some i" by simp
    with cout_unlock out show ?thesis
      by (simp add: inv_out_def partial_line_def written_by_def)
  qed
next
  case (Spurious i)
  with st out show ?thesis
    by (auto elim!: spurious_SomeE simp: inv_out_def partial_line_def)
qed

lemma num_workers_step:
  assumes "step idt a s = Some s'"
  shows "num_workers s' = num_workers s"
proof (cases a)
  case (Main c)
  with assms have "main_step c s = Some s'" by simp
  then show ?thesis by (cases rule: main_step_SomeE) simp_all
next
  case (Work i)
  with assms have "Worker idt i s = Some s'" by simp
  then show ?thesis by (cases rule: Worker_SomeE) simp_all
next
  case (Spurious i)
  with assms have "spurious_wakeup i s = Some s'" by simp
  then show ?thesis by (cases rule: spurious_SomeE) simp
qed

lemma invariant_init: "invariant idt n msgs (init n msgs)"
  by (simp add: invariant_def init_def inv_len_def inv_qm_def inv_cm_def inv_cv_def
      inv_stop_def inv_exit_def inv_join_def inv_fifo_def unsent_def inv_exec_def
      inflight_def inv_single_def inv_out_def partial_line_def written_by_def inv_who_def)

lemma invariant_step:
  assumes "invariant idt n msgs s" "step idt a s = Some s'"
  shows "invariant idt n msgs s'"
  using assms num_workers_step[OF assms(2)]
  unfolding invariant_def
  by (metis inv_len_step inv_qm_step inv_cm_step inv_cv_step inv_stop_step inv_exit_step
      inv_join_step inv_fifo_step inv_exec_step inv_single_step inv_out_step inv_who_step)

lemma invariant_run:
  assumes "invariant idt n msgs s" "run idt sched s = Some s'"
  shows "invariant idt n msgs s'"
  using assms
proof (induction sched arbitrary: s)
  case Nil
  then show ?case by simp
next
  case (Cons a sched)
  from Cons.prems(2) obtain s1 where
    a: "step idt a s = Some s1" and r: "run idt sched s1 = Some s'"
    by (auto split: option.splits)
  from Cons.IH[OF invariant_step[OF Cons.prems(1) a] r] show ?case .
qed

lemma reachable_invariant:
  assumes "run idt sched (init n msgs) = Some s"
  shows "invariant idt n msgs s"
  using invariant_run[OF invariant_init assms] .

lemma run_append:
  "run idt (xs @ ys) s = (case run idt xs s of None \<Rightarrow> None | Some s' \<Rightarrow> run idt ys s')"
  by (induction xs arbitrary: s) (auto split: option.splits)

subsection \<open>Absence of deadlock\<close>

lemma take_or_wait_total: "take_or_wait st q \<noteq> None"
  by (cases q) (simp_all add: take_or_wait_def)

lemma queue_holder_enabled:
  assumes "inv_qm s" "queue_mutex s = Some (WorkerThread j)"
  shows "Worker idt j s \<noteq> None"
proof -
  from inv_qmD3[OF assms] have "j < length (workers s)" "workers s ! j = AtPred" by simp_all
  moreover obtain r where "take_or_wait (stop s) (tasks s) = Some r"
    using take_or_wait_total by blast
  ultimately show ?thesis
    by (cases r) (simp_all add: Worker_def)
qed

lemma cout_holder_enabled:
  assumes "inv_cm s" "cout_mutex s = Some j"
  shows "Worker idt j s \<noteq> None"
proof -
  from inv_cmD2[OF assms] have "j < length (workers s)" "is_printing (workers s ! j)" by simp_all
  then show ?thesis
    by (cases "workers s ! j") (simp_all add: Worker_def)
qed

lemma queue_free_or_enabled:
  assumes "inv_qm s" "\<not> main_holds (main_pc s)"
  shows "queue_mutex s = None \<or> (\<exists>j. Worker idt j s \<noteq> None)"
proof (cases "queue_mutex s")
  case None
  then show ?thesis by simp
next
  case (Some h)
  show ?thesis
  proof (cases h)
    case MainThread
    with Some inv_qmD4[OF assms(1)] assms(2) show ?thesis by simp
  next
    case (WorkerThread j)
    with Some queue_holder_enabled[OF assms(1), of j idt] show ?thesis by blast
  qed
qed

lemma cout_free_or_enabled:
  assumes "inv_cm s"
  shows "cout_mutex s = None \<or> (\<exists>j. Worker idt j s \<noteq> None)"
  using cout_holder_enabled[OF assms] by (cases "cout_mutex s") blast+

lemma live_worker_progress:
  assumes qm: "inv_qm s" and cm: "inv_cm s"
    and k: "k < length (workers s)" "workers s ! k \<noteq> Exited" "k \<notin> cv s"
    and m: "\<not> main_holds (main_pc s)"
  shows "\<exists>j. Worker idt j s \<noteq> None"
proof -
  have free: "\<exists>j. Worker idt j s \<noteq> None"
    if "queue_mutex s = None \<Longrightarrow> Worker idt k s \<noteq> None"
    using queue_free_or_enabled[OF qm m, of idt] that by blast
  have cfree: "\<exists>j. Worker idt j s \<noteq> None"
    if "cout_mutex s = None \<Longrightarrow> Worker idt k s \<noteq> None"
    using cout_free_or_enabled[OF cm, of idt] that by blast
  show ?thesis
  proof (cases "workers s ! k")
    case AtLock
    with k show ?thesis by (intro free) (simp add: Worker_def)
  next
    case AtPred
    with k inv_qmD1[OF qm, of k] queue_holder_enabled[OF qm, of k idt] show ?thesis by blast
  next
    case InWait
    with k show ?thesis by (intro free) (simp add: Worker_def)
  next
    case (Got t)
    with k show ?thesis by (intro cfree) (simp add: Worker_def)
  next
    case (Printing t n)
    with k inv_cmD1[OF cm, of k] cout_holder_enabled[OF cm, of k idt] show ?thesis by auto
  next
    case Sleeping
    with k have "Worker idt k s \<noteq> None" by (simp add: Worker_def)
    then show ?thesis by blast
  next
    case Exited
    with k show ?thesis by simp
  qed
qed

lemma no_deadlock:
  assumes inv: "invariant idt n msgs s" and nf: "main_pc s \<noteq> Finished"
  shows "\<exists>a. \<not> is_spurious a \<and> step idt a s \<noteq> None"
proof -
  from inv have qm: "inv_qm s" and cm: "inv_cm s" and jn: "inv_join s"
    by (simp_all add: invariant_def)
  have W: "\<exists>a. \<not> is_spurious a \<and> step idt a s \<noteq> None" if "\<exists>j. Worker idt j s \<noteq> None"
  proof -
    from that obtain j where "step idt (Work j) s \<noteq> None" by auto
    then show ?thesis by (intro exI[of _ "Work j"]) simp
  qed
  have M: "\<exists>a. \<not> is_spurious a \<and> step idt a s \<noteq> None" if "main_step c s \<noteq> None" for c
    using that by (intro exI[of _ "Main c"]) simp
  show ?thesis
  proof (cases "main_pc s")
    case (Ctor i)
    then show ?thesis by (intro M[of 0]) (simp add: main_step_def)
  next
    case Client
    then show ?thesis by (intro M[of 0]) (simp add: main_step_def split: list.splits)
  next
    case (Enq_lock m)
    with queue_free_or_enabled[OF qm, of idt] consider "queue_mutex s = None" | "\<exists>j. Worker idt j s \<noteq> None"
      by auto
    then show ?thesis
    proof cases
      case 1
      with Enq_lock show ?thesis by (intro M[of 0]) (simp add: main_step_def)
    next
      case 2
      then show ?thesis by (rule W)
    qed
  next
    case (Enq_push m)
    then show ?thesis by (intro M[of 0]) (simp add: main_step_def)
  next
    case Enq_notify
    show ?thesis
    proof (cases "cv s = {}")
      case True
      with Enq_notify show ?thesis by (intro M[of 0]) (simp add: main_step_def notify_one_def)
    next
      case False
      then obtain c where "c \<in> cv s" by blast
      with Enq_notify show ?thesis by (intro M[of c]) (simp add: main_step_def notify_one_def)
    qed
  next
    case Dtor_lock
    with queue_free_or_enabled[OF qm, of idt] consider "queue_mutex s = None" | "\<exists>j. Worker idt j s \<noteq> None"
      by auto
    then show ?thesis
    proof cases
      case 1
      with Dtor_lock show ?thesis by (intro M[of 0]) (simp add: main_step_def)
    next
      case 2
      then show ?thesis by (rule W)
    qed
  next
    case Dtor_stop
    then show ?thesis by (intro M[of 0]) (simp add: main_step_def)
  next
    case Dtor_notify
    then show ?thesis by (intro M[of 0]) (simp add: main_step_def)
  next
    case (Dtor_join k)
    show ?thesis
    proof (cases "k < length (workers s) \<and> workers s ! k \<noteq> Exited")
      case False
      with Dtor_join show ?thesis by (intro M[of 0]) (auto simp: main_step_def)
    next
      case True
      from jn Dtor_join have "cv s = {}" by (simp add: inv_join_def)
      with True Dtor_join live_worker_progress[OF qm cm, of k idt] show ?thesis
        by (intro W) simp
    qed
  next
    case Finished
    with nf show ?thesis by simp
  qed
qed

subsection \<open>Every step but a spurious wake-up lowers the potential\<close>

lemma wsum_update:
  assumes "j < length ws"
  shows "wsum idt n i (ws[j := v]) + wcost idt n (i + j) (ws ! j) =
         wsum idt n i ws + wcost idt n (i + j) v"
  using assms
proof (induction ws arbitrary: i j)
  case Nil
  then show ?case by simp
next
  case (Cons w ws)
  show ?case
  proof (cases j)
    case 0
    then show ?thesis by simp
  next
    case (Suc j')
    with Cons.prems have "j' < length ws" by simp
    from Cons.IH[OF this, of "Suc i"] Suc show ?thesis by simp
  qed
qed

lemma wsum_append: "wsum idt n i (ws @ [v]) = wsum idt n i ws + wcost idt n (i + length ws) v"
  by (induction ws arbitrary: i) simp_all

lemma wcost_update:
  assumes "j < length ws"
  shows "wsum idt n 0 (ws[j := v]) + wcost idt n j (ws ! j) = wsum idt n 0 ws + wcost idt n j v"
  using wsum_update[OF assms, of idt n 0 v] by simp

lemma line_length: "length (line idt (i, t)) = 10 + length (idt i) + length t"
  by (simp add: line_def pieces_def)

lemma line_le_linecost:
  assumes "i < n"
  shows "length (line idt (i, t)) \<le> linecost idt n t"
proof -
  have "length (idt i) \<le> (\<Sum>j<n. length (idt j))"
    using assms by (intro member_le_sum) simp_all
  then show ?thesis by (simp add: line_length linecost_def)
qed

lemma cv_bounded:
  assumes "inv_len s" "inv_cv s"
  shows "cv s \<subseteq> {..<num_workers s}"
  using assms unfolding inv_len_def inv_cv_def by fastforce

lemma potential_Worker:
  assumes len: "inv_len s" and cv: "inv_cv s" and st: "Worker idt i s = Some s'"
  shows "potential idt s' < potential idt s"
  using st
proof (cases rule: Worker_SomeE)
  case lock
  with wcost_update[OF lock(1), of idt "num_workers s" AtPred] show ?thesis
    by (simp add: potential_def)
next
  case relock
  with wcost_update[OF relock(1), of idt "num_workers s" AtPred] show ?thesis
    by (simp add: potential_def)
next
  case wait
  from wait(1) len have "i < num_workers s" by (simp add: inv_len_def)
  with cv_bounded[OF len cv] have sub: "insert i (cv s) \<subseteq> {..<num_workers s}" by simp
  then have fin: "finite (cv s)" by (meson finite_insert finite_lessThan finite_subset)
  from wait(1,2) cv have "i \<notin> cv s" by (auto simp: inv_cv_def)
  with fin have c1: "card (insert i (cv s)) = Suc (card (cv s))" by simp
  from sub have "card (insert i (cv s)) \<le> num_workers s"
    by (metis card_lessThan card_mono finite_lessThan)
  with c1 have "Suc (card (cv s)) \<le> num_workers s" by simp
  with wait c1 wcost_update[OF wait(1), of idt "num_workers s" InWait] show ?thesis
    by (simp add: potential_def)
next
  case exit
  with wcost_update[OF exit(1), of idt "num_workers s" Exited] show ?thesis
    by (simp add: potential_def)
next
  case (take t ts)
  with wcost_update[OF take(1), of idt "num_workers s" "Got t"] show ?thesis
    by (simp add: potential_def qcost_def)
next
  case (cout_lock t)
  from cout_lock(1) len have "i < num_workers s" by (simp add: inv_len_def)
  from line_le_linecost[OF this, of idt t] cout_lock
    wcost_update[OF cout_lock(1), of idt "num_workers s" "Printing t 0"]
  show ?thesis by (simp add: potential_def)
next
  case (put t k)
  with wcost_update[OF put(1), of idt "num_workers s" "Printing t (Suc k)"] show ?thesis
    by (simp add: potential_def)
next
  case (cout_unlock t k)
  with wcost_update[OF cout_unlock(1), of idt "num_workers s" Sleeping] show ?thesis
    by (simp add: potential_def)
next
  case slept
  with wcost_update[OF slept(1), of idt "num_workers s" AtLock] show ?thesis
    by (simp add: potential_def)
qed

lemma potential_main:
  assumes len: "inv_len s" and st: "main_step c s = Some s'"
  shows "potential idt s' < potential idt s"
  using st
proof (cases rule: main_step_SomeE)
  case notify_some
  then have "card (cv s - {c}) = card (cv s) - 1" by simp
  with notify_some show ?thesis by (simp add: potential_def)
next
  case (join k)
  with len have "k < num_workers s" by (simp add: inv_len_def)
  with join show ?thesis by (simp add: potential_def)
qed (simp_all add: potential_def wsum_append qcost_def pcost_def)

lemma potential_spurious:
  assumes "spurious_wakeup i s = Some s'"
  shows "potential idt s' \<le> potential idt s + 2"
  using assms
proof (cases rule: spurious_SomeE)
  case 1
  then have "card (cv s - {i}) = card (cv s) - 1" by simp
  with 1 show ?thesis by (simp add: potential_def)
qed

lemma potential_step:
  assumes "invariant idt n msgs s" "step idt a s = Some s'"
  shows "Suc (potential idt s') \<le> potential idt s + (if is_spurious a then 3 else 0)"
proof -
  from assms(1) have len: "inv_len s" and cv: "inv_cv s" by (simp_all add: invariant_def)
  show ?thesis
  proof (cases a)
    case (Main c)
    with assms(2) potential_main[OF len, of c s' idt] show ?thesis by simp
  next
    case (Work i)
    with assms(2) potential_Worker[OF len cv, of idt i s'] show ?thesis by simp
  next
    case (Spurious i)
    with assms(2) potential_spurious[of i s s' idt] show ?thesis by simp
  qed
qed

lemma potential_run:
  assumes "invariant idt n msgs s" "run idt sched s = Some s'"
  shows "length sched + potential idt s' \<le>
         potential idt s + 3 * length (filter is_spurious sched)"
  using assms
proof (induction sched arbitrary: s)
  case Nil
  then show ?case by simp
next
  case (Cons a sched)
  from Cons.prems(2) obtain s1 where
    a: "step idt a s = Some s1" and r: "run idt sched s1 = Some s'"
    by (auto split: option.splits)
  from Cons.IH[OF invariant_step[OF Cons.prems(1) a] r] potential_step[OF Cons.prems(1) a]
  show ?case by (simp split: if_splits)
qed

lemma potential_init: "potential idt (init n msgs) = pcost idt n msgs + 8 * n + 6"
  by (simp add: potential_def init_def qcost_def)

lemma can_finish:
  assumes "invariant idt n msgs s"
  shows "\<exists>sched s'. filter is_spurious sched = [] \<and> run idt sched s = Some s' \<and> main_pc s' = Finished"
  using assms
proof (induction "potential idt s" arbitrary: s rule: less_induct)
  case less
  show ?case
  proof (cases "main_pc s = Finished")
    case True
    then have "filter is_spurious [] = [] \<and> run idt [] s = Some s \<and> main_pc s = Finished" by simp
    then show ?thesis by blast
  next
    case False
    from no_deadlock[OF less.prems False] obtain a s1 where
      a: "\<not> is_spurious a" "step idt a s = Some s1" by auto
    from potential_step[OF less.prems a(2)] a(1) have "potential idt s1 < potential idt s" by simp
    from less.hyps[OF this invariant_step[OF less.prems a(2)]] obtain sched s' where
      r: "filter is_spurious sched = []" "run idt sched s1 = Some s'" "main_pc s' = Finished"
      by blast
    with a have "filter is_spurious (a # sched) = [] \<and> run idt (a # sched) s = Some s' \<and>
      main_pc s' = Finished" by simp
    then show ?thesis by blast
  qed
qed

subsection \<open>Exactly-once execution\<close>

lemma run_two: "run example_id sched_two (init 2 [''m1'', ''m2'']) = Some final_two"
  by (simp add: sched_two_def final_two_def init_def main_step_def Worker_def take_or_wait_def
      notify_one_def notify_all_def pieces_def line_def example_id_def)

lemma run_none: "run example_id sched_none (init 0 [''m1'']) = Some final_none"
  by (simp add: sched_none_def final_none_def init_def main_step_def
      notify_one_def notify_all_def numeral_eq_Suc)

lemma all_exited_inflight:
  assumes "\<forall>j<length ws. ws ! j = Exited"
  shows "concat (map held ws) = []" "set ws \<subseteq> {Exited}"
proof -
  from assms have "\<forall>w \<in> set ws. w = Exited" by (metis in_set_conv_nth)
  then show "concat (map held ws) = []" "set ws \<subseteq> {Exited}" by auto
qed

lemma finished_state:
  assumes inv: "invariant idt n msgs s" and fin: "main_pc s = Finished"
  shows "set (workers s) \<subseteq> {Exited}" "length (workers s) = n" "inflight s = []"
    "unsent s = []" "cout_mutex s = None" "cv s = {}" "stop s"
proof -
  from inv fin have ex: "\<forall>j<length (workers s). workers s ! j = Exited" and "cv s = {}"
    by (simp_all add: invariant_def inv_join_def)
  then show "cv s = {}" by simp
  from all_exited_inflight[OF ex] show "set (workers s) \<subseteq> {Exited}" "inflight s = []"
    by (simp_all add: inflight_def)
  from inv fin show "length (workers s) = n" by (simp add: invariant_def inv_len_def)
  from inv fin show "unsent s = []" "stop s" by (simp_all add: invariant_def inv_stop_def unsent_def)
  from inv have cm: "inv_cm s" by (simp add: invariant_def)
  show "cout_mutex s = None"
  proof (cases "cout_mutex s")
    case (Some h)
    from inv_cmD2[OF cm Some] ex show ?thesis by auto
  qed simp
qed

lemma finished_drained:
  assumes inv: "invariant idt n msgs s" and fin: "main_pc s = Finished" and n: "0 < n"
  shows "tasks s = []" "dequeued s = msgs" "mset (map snd (executed s)) = mset msgs"
proof -
  note f = finished_state[OF inv fin]
  from f(2) n have "workers s \<noteq> []" by auto
  with f(1) have "Exited \<in> set (workers s)" by (cases "workers s") auto
  with inv show t: "tasks s = []" by (simp add: invariant_def inv_exit_def)
  from inv t f(4) show d: "dequeued s = msgs" by (simp add: invariant_def inv_fifo_def)
  from inv f(3) d show "mset (map snd (executed s)) = mset msgs"
    by (simp add: invariant_def inv_exec_def)
qed

lemma executed_by_worker:
  assumes "invariant idt n msgs s"
  shows "set (map fst (executed s)) \<subseteq> {..<n}"
proof -
  from assms have w: "inv_who s" and "inv_len s" and "num_workers s = n"
    by (simp_all add: invariant_def)
  then have "length (workers s) \<le> n" by (simp add: inv_len_def)
  with w show ?thesis by (fastforce simp: inv_who_def)
qed

lemma conservation:
  assumes "invariant idt n msgs s"
  shows "mset (map snd (executed s)) + mset (inflight s) + mset (tasks s) + mset (unsent s) =
         mset msgs"
proof -
  from assms have "mset (map snd (executed s)) + mset (inflight s) = mset (dequeued s)"
    and "dequeued s @ tasks s @ unsent s = msgs"
    by (simp_all add: invariant_def inv_exec_def inv_fifo_def)
  then show ?thesis by (metis mset_append add.assoc)
qed

lemma finished_exactly:
  assumes inv: "invariant idt n msgs s" and fin: "main_pc s = Finished" and n: "0 < n"
  shows "mset (map snd (executed s)) = mset msgs \<and> length (executed s) = length msgs \<and>
         tasks s = [] \<and> inflight s = []"
proof -
  note d = finished_drained[OF inv fin n]
  from d(3) have "size (mset (map snd (executed s))) = size (mset msgs)" by simp
  then have "length (executed s) = length msgs" by simp
  with d finished_state(3)[OF inv fin] show ?thesis by simp
qed

text \<open>
  C1 (as amended). For a pool with at least one worker, under every schedule, once
  the owner has entered the constructor with the messages \<open>msgs\<close> to submit:
  \<^item> the destructor returns: in every reachable state in which it has not yet
    returned some thread can take a step that is not a spurious wake-up, every run
    is bounded in length apart from three steps per spurious wake-up, and from
    every reachable state there is a continuation on which it returns;
  \<^item> on every such continuation, and in every reachable state in which the
    destructor has returned, the finished executions are, as a multiset, exactly
    the submitted messages (none lost, none duplicated), there are as many of them
    as messages, and nothing is left in the queue or in a worker's hands;
  \<^item> at every moment each finished execution is attributed to one worker of the
    pool, and the executed tasks, the tasks in a worker's hands, the queue and the
    messages still to be submitted together are exactly the messages: no task is
    ever executed twice.
\<close>

theorem exactly_once:
  assumes "0 < n" and "run idt sched (init n msgs) = Some s"
  shows "(main_pc s = Finished \<or> (\<exists>a. \<not> is_spurious a \<and> step idt a s \<noteq> None)) \<and>
         length sched \<le> pcost idt n msgs + 8 * n + 6 + 3 * length (filter is_spurious sched) \<and>
         (\<exists>sched' s'. filter is_spurious sched' = [] \<and> run idt sched' s = Some s' \<and>
            main_pc s' = Finished \<and>
            mset (map snd (executed s')) = mset msgs \<and> length (executed s') = length msgs \<and>
            tasks s' = [] \<and> inflight s' = []) \<and>
         (main_pc s = Finished \<longrightarrow>
            mset (map snd (executed s)) = mset msgs \<and> length (executed s) = length msgs \<and>
            tasks s = [] \<and> inflight s = []) \<and>
         set (map fst (executed s)) \<subseteq> {..<n} \<and>
         mset (map snd (executed s)) + mset (inflight s) + mset (tasks s) + mset (unsent s) =
           mset msgs"
proof -
  note inv = reachable_invariant[OF assms(2)]
  have live: "main_pc s = Finished \<or> (\<exists>a. \<not> is_spurious a \<and> step idt a s \<noteq> None)"
    using no_deadlock[OF inv] by blast
  from potential_run[OF invariant_init assms(2)]
  have bound:
    "length sched \<le> pcost idt n msgs + 8 * n + 6 + 3 * length (filter is_spurious sched)"
    by (simp add: potential_init)
  from can_finish[OF inv] obtain sched' s' where
    r: "filter is_spurious sched' = []" "run idt sched' s = Some s'" "main_pc s' = Finished"
    by blast
  from finished_exactly[OF invariant_run[OF inv r(2)] r(3) assms(1)] r
  have returns: "\<exists>sched' s'. filter is_spurious sched' = [] \<and> run idt sched' s = Some s' \<and>
            main_pc s' = Finished \<and>
            mset (map snd (executed s')) = mset msgs \<and> length (executed s') = length msgs \<and>
            tasks s' = [] \<and> inflight s' = []"
    by blast
  have fin: "mset (map snd (executed s)) = mset msgs \<and> length (executed s) = length msgs \<and>
            tasks s = [] \<and> inflight s = []" if "main_pc s = Finished"
    using finished_exactly[OF inv that assms(1)] .
  from live bound returns fin executed_by_worker[OF inv] conservation[OF inv]
  show ?thesis by blast
qed

theorem exactly_once_witness:
  "run example_id sched_two (init 2 [''m1'', ''m2'']) = Some final_two \<and>
   main_pc final_two = Finished \<and>
   mset (map snd (executed final_two)) = mset [''m1'', ''m2''] \<and>
   length (executed final_two) = 2 \<and>
   set (map fst (executed final_two)) \<subseteq> {..<2}"
proof -
  have f: "main_pc final_two = Finished" by (simp add: final_two_def)
  have "(0::nat) < 2" by simp
  from exactly_once[OF this run_two] have
    "main_pc final_two = Finished \<longrightarrow>
       mset (map snd (executed final_two)) = mset [''m1'', ''m2''] \<and>
       length (executed final_two) = length [''m1'', ''m2'']"
    and "set (map fst (executed final_two)) \<subseteq> {..<2}"
    by blast+
  with f run_two show ?thesis by simp
qed

text \<open>
  C1 as stated fails for a pool constructed with no worker: the submitted task stays
  in the queue and the destructor returns with no execution.
\<close>

theorem exactly_once_counterexample:
  "run example_id sched_none (init 0 [''m1'']) = Some final_none \<and>
   main_pc final_none = Finished \<and> executed final_none = [] \<and>
   tasks final_none = [''m1''] \<and> cout final_none = []"
  using run_none by (simp add: final_none_def)

subsection \<open>Drain and join\<close>

lemmas eval_defs = init_def main_step_def Worker_def take_or_wait_def
  notify_one_def notify_all_def spurious_wakeup_def pieces_def line_def example_id_def

lemma run_two_a: "run example_id sched_two_a (init 2 [''m1'', ''m2'']) = Some mid_two"
  by (simp add: sched_two_a_def mid_two_def eval_defs)

lemma run_two_b: "run example_id sched_two_b mid_two = Some final_two"
  by (simp add: sched_two_b_def mid_two_def final_two_def eval_defs)

lemma run_none_a: "run example_id sched_none_a (init 0 [''m1'', ''m2'']) = Some mid_none"
  by (simp add: sched_none_a_def mid_none_def eval_defs numeral_eq_Suc)

lemma run_none_b: "run example_id sched_none_b mid_none = Some end_none"
  by (simp add: sched_none_b_def mid_none_def end_none_def eval_defs numeral_eq_Suc)

lemma executed_step_prefix:
  assumes "step idt a s = Some s'"
  shows "prefix (executed s) (executed s')"
proof (cases a)
  case (Main c)
  with assms have "main_step c s = Some s'" by simp
  then show ?thesis by (cases rule: main_step_SomeE) simp_all
next
  case (Work i)
  with assms have "Worker idt i s = Some s'" by simp
  then show ?thesis by (cases rule: Worker_SomeE) simp_all
next
  case (Spurious i)
  with assms have "spurious_wakeup i s = Some s'" by simp
  then show ?thesis by (cases rule: spurious_SomeE) simp
qed

lemma executed_run_prefix:
  assumes "run idt sched s = Some s'"
  shows "prefix (executed s) (executed s')"
  using assms
proof (induction sched arbitrary: s)
  case Nil
  then show ?case by simp
next
  case (Cons a sched)
  from Cons.prems obtain s1 where
    a: "step idt a s = Some s1" and r: "run idt sched s1 = Some s'"
    by (auto split: option.splits)
  from executed_step_prefix[OF a] Cons.IH[OF r] show ?case by (rule prefix_order.trans)
qed

lemma finished_terminal:
  assumes inv: "invariant idt n msgs s" and fin: "main_pc s = Finished"
  shows "step idt a s = None"
proof (cases a)
  case (Main c)
  with fin show ?thesis by (simp add: main_step_def)
next
  case (Work i)
  from finished_state(1)[OF inv fin] have "i < length (workers s) \<Longrightarrow> workers s ! i = Exited"
    using nth_mem by fastforce
  with Work show ?thesis by (cases "i < length (workers s)") (simp_all add: Worker_def)
next
  case (Spurious i)
  with finished_state(6)[OF inv fin] show ?thesis by (simp add: spurious_wakeup_def)
qed

text \<open>
  C2 (as amended). For a pool with at least one worker: let \<open>s1\<close> be the state in
  which the destructor holds the queue mutex and sets the shutdown flag, and \<open>s2\<close>
  a later state in which the destructor has returned. Then what has been executed
  in \<open>s2\<close> extends what had been executed in \<open>s1\<close> by exactly the tasks that were
  in a worker's hands and the tasks that were in the queue at \<open>s1\<close>; the queue is empty;
  every worker thread has returned; and no thread can take a step any more.
\<close>

theorem drain_and_join:
  assumes "0 < n"
    and "run idt sched1 (init n msgs) = Some s1" and "main_pc s1 = Dtor_stop"
    and "run idt sched2 s1 = Some s2" and "main_pc s2 = Finished"
  shows "prefix (executed s1) (executed s2) \<and>
         mset (map snd (executed s2)) =
           mset (map snd (executed s1)) + mset (inflight s1) + mset (tasks s1) \<and>
         tasks s2 = [] \<and>
         length (workers s2) = n \<and> set (workers s2) \<subseteq> {Exited} \<and>
         step idt a s2 = None"
proof -
  note inv1 = reachable_invariant[OF assms(2)]
  from assms(2,4) have "run idt (sched1 @ sched2) (init n msgs) = Some s2"
    by (simp add: run_append)
  note inv2 = reachable_invariant[OF this]
  note d = finished_drained[OF inv2 assms(5) assms(1)]
  note f = finished_state[OF inv2 assms(5)]
  from inv1 assms(3) have "unsent s1 = []"
    by (simp add: invariant_def inv_stop_def unsent_def)
  with inv1 have "dequeued s1 @ tasks s1 = msgs"
    by (simp add: invariant_def inv_fifo_def)
  then have "mset msgs = mset (dequeued s1) + mset (tasks s1)"
    by (metis mset_append)
  moreover from inv1 have "mset (map snd (executed s1)) + mset (inflight s1) = mset (dequeued s1)"
    by (simp add: invariant_def inv_exec_def)
  ultimately have
    "mset (map snd (executed s2)) =
       mset (map snd (executed s1)) + mset (inflight s1) + mset (tasks s1)"
    using d(3) by simp
  with executed_run_prefix[OF assms(4)] d(1) f(1,2) finished_terminal[OF inv2 assms(5), of a]
  show ?thesis by simp
qed

theorem drain_and_join_witness:
  "run example_id sched_two_a (init 2 [''m1'', ''m2'']) = Some mid_two \<and>
   main_pc mid_two = Dtor_stop \<and> tasks mid_two = [''m2''] \<and> inflight mid_two = [''m1''] \<and>
   run example_id sched_two_b mid_two = Some final_two \<and> main_pc final_two = Finished \<and>
   mset (map snd (executed final_two)) = mset [''m1''] + mset [''m2''] \<and>
   workers final_two = [Exited, Exited] \<and>
   step example_id (Work 0) final_two = None"
proof -
  have m: "main_pc mid_two = Dtor_stop" and f: "main_pc final_two = Finished"
    by (simp_all add: mid_two_def final_two_def)
  have "(0::nat) < 2" by simp
  from drain_and_join[OF this run_two_a m run_two_b f, of "Work 0"] run_two_a run_two_b m f
  show ?thesis by (simp add: mid_two_def final_two_def inflight_def)
qed

text \<open>
  C2 as stated fails for a pool constructed with no worker: two tasks are in the
  queue when the flag is set, the destructor returns, and neither has been executed.
\<close>

theorem drain_and_join_counterexample:
  "run example_id sched_none_a (init 0 [''m1'', ''m2'']) = Some mid_none \<and>
   main_pc mid_none = Dtor_stop \<and> tasks mid_none = [''m1'', ''m2''] \<and>
   run example_id sched_none_b mid_none = Some end_none \<and>
   main_pc end_none = Finished \<and> executed end_none = [] \<and>
   tasks end_none = [''m1'', ''m2'']"
  using run_none_a run_none_b by (simp add: mid_none_def end_none_def)

subsection \<open>The dequeue step, queue order and Enqueue\<close>

lemma run_at_pred: "run example_id sched_at_pred (init 1 [''m1'']) = Some at_pred_one"
  by (simp add: sched_at_pred_def at_pred_one_def eval_defs)

lemma run_one: "run example_id sched_one (init 1 [''m1'', ''m2'']) = Some final_one"
  by (simp add: sched_one_def final_one_def eval_defs)



text \<open>
  C4. In every reachable state the tasks that have left the queue, followed by the
  queue, followed by the messages not yet pushed, are the submitted messages in
  their order: tasks leave the queue in submission order, whichever worker takes
  them. With a single worker the finished executions followed by the task in the
  worker's hands are the dequeued tasks in order, so on return of the destructor
  the execution order is the submission order.
\<close>

theorem fifo_order:
  assumes "run idt sched (init n msgs) = Some s"
  shows "dequeued s @ tasks s @ unsent s = msgs \<and>
         prefix (dequeued s) msgs \<and>
         (n = 1 \<longrightarrow> map snd (executed s) @ inflight s = dequeued s) \<and>
         (n = 1 \<and> main_pc s = Finished \<longrightarrow> map snd (executed s) = msgs)"
proof -
  note inv = reachable_invariant[OF assms]
  from inv have f: "dequeued s @ tasks s @ unsent s = msgs"
    by (simp add: invariant_def inv_fifo_def)
  then have p: "prefix (dequeued s) msgs" by (metis prefixI)
  have one: "map snd (executed s) @ inflight s = dequeued s" if "n = 1"
  proof -
    from inv that have "inv_len s" "num_workers s = 1" "inv_single s"
      by (simp_all add: invariant_def)
    then show ?thesis by (simp add: inv_len_def inv_single_def)
  qed
  have fin: "map snd (executed s) = msgs" if "n = 1" "main_pc s = Finished"
  proof -
    from that have "0 < n" by simp
    from finished_drained(2)[OF inv that(2) this] finished_state(3)[OF inv that(2)] one[OF that(1)]
    show ?thesis by simp
  qed
  from f p one fin show ?thesis by blast
qed

theorem fifo_order_witness:
  "run example_id sched_one (init 1 [''m1'', ''m2'']) = Some final_one \<and>
   main_pc final_one = Finished \<and>
   dequeued final_one = [''m1'', ''m2''] \<and>
   map snd (executed final_one) = [''m1'', ''m2'']"
proof -
  have f: "main_pc final_one = Finished" by (simp add: final_one_def)
  from fifo_order[OF run_one] f run_one show ?thesis
    by (simp add: final_one_def)
qed

lemma Enqueue_result:
  assumes "queue_mutex s = None" and "cv s = {} \<or> c \<in> cv s"
  shows "Enqueue m c s =
           Some (s\<lparr>tasks := tasks s @ [m], cv := cv s - {c}, main_pc := Client\<rparr>)"
proof (cases "cv s = {}")
  case True
  with assms(1) show ?thesis
    by (simp add: Enqueue_def main_step_def notify_one_def)
next
  case False
  with assms show ?thesis
    by (simp add: Enqueue_def main_step_def notify_one_def)
qed

lemma holder_releases:
  assumes "inv_qm s" and "queue_mutex s = Some (WorkerThread j)"
  shows "\<exists>s1. Worker idt j s = Some s1 \<and> queue_mutex s1 = None"
proof -
  from inv_qmD3[OF assms] have j: "j < length (workers s)" "workers s ! j = AtPred"
    by simp_all
  show ?thesis
  proof (cases "tasks s")
    case (Cons x xs)
    with j show ?thesis by (simp add: Worker_def take_or_wait_def)
  next
    case Nil
    with j show ?thesis by (cases "stop s") (simp_all add: Worker_def take_or_wait_def)
  qed
qed

text \<open>
  C5. Take any state in which the owner of each mutex is where the program has it
  (\<open>inv_qm\<close>, which holds in every reachable state) and the caller is outside its
  own critical sections, whatever the queue, the flag, the wait set and the workers
  are. A call \<^verbatim>\<open>Enqueue(m)\<close> made there has one step that can be delayed, the lock
  at line 40, and it is delayed exactly when the queue mutex is held; no step of
  the call depends on the condition variable.
  \<^item> If the mutex is free, the call runs to its end in its own three steps: it
    appends \<open>m\<close> at the back of the queue, releases the mutex, wakes at most one
    waiter and adds none to the wait set, and its only result is the new state
    (the method is \<^verbatim>\<open>void\<close>).
  \<^item> If the mutex is held, its holder is a worker inside lines 54--59, whose next
    step is enabled and releases the mutex; from the state it leaves, the call
    runs to its end in the same way.
\<close>

theorem Enqueue_contract:
  assumes "inv_qm s" and "\<not> main_holds (main_pc s)"
  shows "(main_step c (s\<lparr>main_pc := Enq_lock m\<rparr>) = None \<longleftrightarrow> queue_mutex s \<noteq> None) \<and>
         (queue_mutex s = None \<longrightarrow> cv s = {} \<or> c \<in> cv s \<longrightarrow>
            (\<exists>s'. Enqueue m c s = Some s' \<and> tasks s' = tasks s @ [m] \<and>
               queue_mutex s' = None \<and> cv s' = cv s - {c} \<and> cv s' \<subseteq> cv s \<and>
               main_pc s' = Client)) \<and>
         (queue_mutex s \<noteq> None \<longrightarrow>
            (\<exists>j s1. queue_mutex s = Some (WorkerThread j) \<and>
               Worker idt j s = Some s1 \<and> queue_mutex s1 = None \<and>
               (\<forall>c'. cv s1 = {} \<or> c' \<in> cv s1 \<longrightarrow>
                  (\<exists>s'. Enqueue m c' s1 = Some s' \<and> tasks s' = tasks s1 @ [m] \<and>
                     queue_mutex s' = None \<and> cv s' = cv s1 - {c'} \<and> cv s' \<subseteq> cv s1 \<and>
                     main_pc s' = Client))))"
proof -
  have completes: "\<exists>s'. Enqueue m c t = Some s' \<and> tasks s' = tasks t @ [m] \<and>
               queue_mutex s' = None \<and> cv s' = cv t - {c} \<and> cv s' \<subseteq> cv t \<and>
               main_pc s' = Client"
    if "queue_mutex t = None" "cv t = {} \<or> c \<in> cv t" for t c
    using Enqueue_result[OF that, of m] that(1) by auto
  have lock: "main_step c (s\<lparr>main_pc := Enq_lock m\<rparr>) = None \<longleftrightarrow> queue_mutex s \<noteq> None"
    by (simp add: main_step_def)
  have contended: "\<exists>j s1. queue_mutex s = Some (WorkerThread j) \<and>
               Worker idt j s = Some s1 \<and> queue_mutex s1 = None \<and>
               (\<forall>c'. cv s1 = {} \<or> c' \<in> cv s1 \<longrightarrow>
                  (\<exists>s'. Enqueue m c' s1 = Some s' \<and> tasks s' = tasks s1 @ [m] \<and>
                     queue_mutex s' = None \<and> cv s' = cv s1 - {c'} \<and> cv s' \<subseteq> cv s1 \<and>
                     main_pc s' = Client))"
    if "queue_mutex s \<noteq> None"
  proof -
    from that obtain h where h: "queue_mutex s = Some h" by blast
    show ?thesis
    proof (cases h)
      case MainThread
      with h inv_qmD4[OF assms(1)] assms(2) show ?thesis by simp
    next
      case (WorkerThread j)
      with h have q: "queue_mutex s = Some (WorkerThread j)" by simp
      from holder_releases[OF assms(1) q, of idt] obtain s1 where
        s1: "Worker idt j s = Some s1" "queue_mutex s1 = None" by blast
      with q completes[OF s1(2)] show ?thesis by blast
    qed
  qed
  from lock completes[of s c] contended show ?thesis by blast
qed

theorem Enqueue_contract_witness:
  "run example_id sched_at_pred (init 1 [''m1'']) = Some at_pred_one \<and>
   queue_mutex at_pred_one = Some (WorkerThread 0) \<and>
   main_step 0 (at_pred_one\<lparr>main_pc := Enq_lock ''m2''\<rparr>) = None \<and>
   map_option queue_mutex (Worker example_id 0 at_pred_one) = Some None \<and>
   map_option tasks
     (Option.bind (Worker example_id 0 at_pred_one) (Enqueue ''m2'' 0)) = Some [''m2'']"
proof -
  note inv = reachable_invariant[OF run_at_pred]
  then have q: "inv_qm at_pred_one" by (simp add: invariant_def)
  have m: "\<not> main_holds (main_pc at_pred_one)" by (simp add: at_pred_one_def)
  from Enqueue_contract[OF q m, of 0 "''m2''" example_id] run_at_pred show ?thesis
    by (simp add: at_pred_one_def Worker_def take_or_wait_def Enqueue_def main_step_def
        notify_one_def)
qed

text \<open>
  C10. Under the same conditions the call makes the queue longer by exactly one,
  leaves every element that was in the queue where it was, and leaves the shutdown
  flag, the worker threads, the output stream and the histories unchanged.
\<close>

theorem Enqueue_frame:
  assumes "queue_mutex s = None" and "cv s = {} \<or> c \<in> cv s"
  shows "\<exists>s'. Enqueue m c s = Some s' \<and>
           length (tasks s') = Suc (length (tasks s)) \<and>
           take (length (tasks s)) (tasks s') = tasks s \<and>
           stop s' = stop s \<and> workers s' = workers s \<and>
           num_workers s' = num_workers s \<and> cout_mutex s' = cout_mutex s \<and>
           cout s' = cout s \<and> dequeued s' = dequeued s \<and> executed s' = executed s"
  using Enqueue_result[OF assms, of m] by auto

theorem Enqueue_frame_witness:
  "queue_mutex woken_one = None \<and> cv woken_one = {} \<and> tasks woken_one = [''m1''] \<and>
   map_option tasks (Enqueue ''m2'' 0 woken_one) = Some [''m1'', ''m2''] \<and>
   map_option stop (Enqueue ''m2'' 0 woken_one) = Some False \<and>
   map_option workers (Enqueue ''m2'' 0 woken_one) = Some [InWait]"
proof -
  have a: "queue_mutex woken_one = None" "cv woken_one = {} \<or> 0 \<in> cv woken_one"
    by (simp_all add: woken_one_def)
  from Enqueue_frame[OF a, of "''m2''"] a show ?thesis
    by (simp add: woken_one_def Enqueue_def main_step_def notify_one_def)
qed

subsection \<open>The output stream\<close>

lemma run_two_c: "run example_id sched_two_c (init 2 [''m1'', ''m2'']) = Some printing_two"
  by (simp add: sched_two_c_def printing_two_def eval_defs)

lemma run_three: "run example_id sched_three (init 3 []) = Some final_three"
  by (simp add: sched_three_def final_three_def eval_defs)

lemma partial_prefix: "prefix (partial_line idt s) (printing_line idt s)"
proof (cases "cout_mutex s")
  case None
  then show ?thesis by (simp add: partial_line_def written_by_def printing_line_def)
next
  case (Some i)
  show ?thesis
  proof (cases "workers s ! i")
    case (Printing t k)
    with Some show ?thesis
      by (simp add: partial_line_def written_by_def printing_line_def take_is_prefix)
  qed (simp_all add: Some partial_line_def written_by_def printing_line_def)
qed

lemma filter_at_most_one:
  assumes "\<And>i j. i < length ws \<Longrightarrow> j < length ws \<Longrightarrow> P (ws ! i) \<Longrightarrow> P (ws ! j) \<Longrightarrow> i = j"
  shows "length (filter P ws) \<le> 1"
  using assms
proof (induction ws)
  case Nil
  then show ?case by simp
next
  case (Cons x xs)
  have IH: "length (filter P xs) \<le> 1"
  proof (rule Cons.IH)
    fix i j
    assume "i < length xs" "j < length xs" "P (xs ! i)" "P (xs ! j)"
    with Cons.prems[of "Suc i" "Suc j"] show "i = j" by simp
  qed
  show ?case
  proof (cases "P x")
    case False
    with IH show ?thesis by simp
  next
    case True
    have "filter P xs = []"
    proof (rule ccontr)
      assume "filter P xs \<noteq> []"
      then obtain y where "y \<in> set xs" "P y"
        by (metis filter_False)
      then obtain j where "j < length xs" "xs ! j = y" by (metis in_set_conv_nth)
      with True \<open>P y\<close> Cons.prems[of 0 "Suc j"] show False by simp
    qed
    with True show ?thesis by simp
  qed
qed

lemma one_printer:
  assumes "inv_cm s"
  shows "length (filter is_printing (workers s)) \<le> 1"
proof (rule filter_at_most_one)
  fix i j
  assume "i < length (workers s)" "j < length (workers s)"
    "is_printing (workers s ! i)" "is_printing (workers s ! j)"
  with inv_cmD1[OF assms, of i] inv_cmD1[OF assms, of j] show "i = j" by simp
qed

text \<open>
  C6. In every reachable state, under every schedule, the characters on
  \<^verbatim>\<open>std::cout\<close> are the complete lines of the finished executions, one after the
  other, followed by a prefix of the one line that the owner of \<^verbatim>\<open>cout_mutex\<close> is
  writing (nothing when the mutex is free). At most one worker is inside the output
  critical section, and a worker holding the queue mutex never owns \<^verbatim>\<open>cout_mutex\<close>:
  the two mutexes guard separate sections.
\<close>

theorem output_not_interleaved:
  assumes "run idt sched (init n msgs) = Some s"
  shows "cout s = concat (map (line idt) (executed s)) @ partial_line idt s \<and>
         prefix (partial_line idt s) (printing_line idt s) \<and>
         (cout_mutex s = None \<longrightarrow> partial_line idt s = []) \<and>
         length (filter is_printing (workers s)) \<le> 1 \<and>
         (queue_mutex s = Some (WorkerThread i) \<longrightarrow> cout_mutex s \<noteq> Some i)"
proof -
  note inv = reachable_invariant[OF assms]
  from inv have out: "inv_out idt s" and cm: "inv_cm s" and qm: "inv_qm s"
    by (simp_all add: invariant_def)
  have "cout_mutex s \<noteq> Some i" if "queue_mutex s = Some (WorkerThread i)"
    using inv_qmD3[OF qm that] inv_cmD2[OF cm, of i] by auto
  moreover have "partial_line idt s = []" if "cout_mutex s = None"
    using that by (simp add: partial_line_def written_by_def)
  ultimately show ?thesis
    using out partial_prefix[of idt s] one_printer[OF cm] by (simp add: inv_out_def)
qed

theorem output_not_interleaved_witness:
  "run example_id sched_two_c (init 2 [''m1'', ''m2'']) = Some printing_two \<and>
   queue_mutex printing_two = Some (WorkerThread 0) \<and> cout_mutex printing_two = Some 1 \<and>
   executed printing_two = [] \<and>
   cout printing_two = partial_line example_id printing_two \<and>
   partial_line example_id printing_two = ''Thre'' \<and>
   prefix (partial_line example_id printing_two) (line example_id (1, ''m1''))"
proof -
  from output_not_interleaved[OF run_two_c, of 0] run_two_c show ?thesis
    by (simp add: printing_two_def partial_line_def written_by_def printing_line_def
        pieces_def line_def)
qed

lemma line_format: "line idt (i, t) = ''Thread '' @ idt i @ '': '' @ t @ [CHR 0x0A]"
  by (simp add: line_def pieces_def)

text \<open>
  C7. In every reachable state in which no worker is in the middle of a line, the
  output stream consists of exactly one line per finished execution, in the order
  they finished, and the line of worker \<open>i\<close> for task \<open>t\<close> is the text \<^verbatim>\<open>Thread\<close>,
  a space, the thread id of \<open>i\<close>, a colon, a space, the payload \<open>t\<close>, and a newline.
  Every task that left the queue has produced its line or is still in the hands of
  the worker that took it.
\<close>

theorem output_format:
  assumes "run idt sched (init n msgs) = Some s" and "cout_mutex s = None"
  shows "cout s =
           concat (map (\<lambda>e. ''Thread '' @ idt (fst e) @ '': '' @ snd e @ [CHR 0x0A])
                       (executed s)) \<and>
         mset (map snd (executed s)) + mset (inflight s) = mset (dequeued s)"
proof -
  note inv = reachable_invariant[OF assms(1)]
  have "line idt = (\<lambda>e. ''Thread '' @ idt (fst e) @ '': '' @ snd e @ [CHR 0x0A])"
    by (rule ext) (simp add: line_def pieces_def)
  with inv assms(2) show ?thesis
    by (simp add: invariant_def inv_out_def inv_exec_def partial_line_def written_by_def)
qed

theorem output_format_witness:
  "run example_id sched_two (init 2 [''m1'', ''m2'']) = Some final_two \<and>
   cout_mutex final_two = None \<and>
   executed final_two = [(1, ''m1''), (0, ''m2'')] \<and>
   cout final_two = ''Thread B: m1'' @ [CHR 0x0A] @ ''Thread A: m2'' @ [CHR 0x0A]"
proof -
  have c: "cout_mutex final_two = None" by (simp add: final_two_def)
  from output_format[OF run_two c] run_two show ?thesis
    by (simp add: final_two_def)
qed

subsection \<open>Pools without tasks and pools without workers\<close>

lemma nothing_in_flight:
  assumes "inv_cm s" and "inflight s = []"
  shows "cout_mutex s = None"
proof (cases "cout_mutex s")
  case (Some i)
  from inv_cmD2[OF assms(1) Some] have i: "i < length (workers s)" "is_printing (workers s ! i)"
    by simp_all
  then have "held (workers s ! i) \<noteq> []" by (cases "workers s ! i") simp_all
  moreover from i(1) have "workers s ! i \<in> set (workers s)" by simp
  ultimately have "inflight s \<noteq> []" unfolding inflight_def by auto
  with assms(2) show ?thesis by simp
qed simp

text \<open>
  C8. For every worker count, when the owner constructs the pool and lets it go out
  of scope with no submission: in every reachable state nothing has been taken from
  the queue, executed or written; unless the destructor has returned, some thread
  can take a step that is not a spurious wake-up (no deadlock); every run has at
  most \<open>8 n + 6\<close> steps plus three per spurious wake-up; and from every reachable
  state the destructor can still return, with no execution.
\<close>

theorem zero_tasks:
  assumes "run idt sched (init n []) = Some s"
  shows "dequeued s = [] \<and> executed s = [] \<and> cout s = [] \<and> tasks s = [] \<and>
         (main_pc s = Finished \<or> (\<exists>a. \<not> is_spurious a \<and> step idt a s \<noteq> None)) \<and>
         length sched \<le> 8 * n + 6 + 3 * length (filter is_spurious sched) \<and>
         (\<exists>sched' s'. filter is_spurious sched' = [] \<and> run idt sched' s = Some s' \<and>
             main_pc s' = Finished \<and> executed s' = [] \<and> cout s' = [])"
proof -
  note inv = reachable_invariant[OF assms]
  have quiet: "dequeued t = [] \<and> executed t = [] \<and> cout t = [] \<and> tasks t = []"
    if "invariant idt n [] t" for t
  proof -
    from that have d: "dequeued t = []" "tasks t = []"
      by (simp_all add: invariant_def inv_fifo_def)
    with that have e: "executed t = []" "inflight t = []"
      by (simp_all add: invariant_def inv_exec_def)
    from that have cm: "inv_cm t" by (simp add: invariant_def)
    from that e nothing_in_flight[OF cm e(2)] have "cout t = []"
      by (simp add: invariant_def inv_out_def partial_line_def written_by_def)
    with d e show ?thesis by simp
  qed
  have live: "main_pc s = Finished \<or> (\<exists>a. \<not> is_spurious a \<and> step idt a s \<noteq> None)"
    using no_deadlock[OF inv] by blast
  from potential_run[OF invariant_init assms]
  have bound: "length sched \<le> 8 * n + 6 + 3 * length (filter is_spurious sched)"
    by (simp add: potential_init pcost_def)
  from can_finish[OF inv] obtain sched' s' where
    r: "filter is_spurious sched' = []" "run idt sched' s = Some s'" "main_pc s' = Finished"
    by blast
  from quiet[OF invariant_run[OF inv r(2)]] r
  have "\<exists>sched' s'. filter is_spurious sched' = [] \<and> run idt sched' s = Some s' \<and>
             main_pc s' = Finished \<and> executed s' = [] \<and> cout s' = []"
    by blast
  with quiet[OF inv] live bound show ?thesis by simp
qed

theorem zero_tasks_witness:
  "run example_id sched_three (init 3 []) = Some final_three \<and>
   main_pc final_three = Finished \<and> executed final_three = [] \<and> cout final_three = [] \<and>
   length sched_three \<le> 8 * 3 + 6 + 3 * length (filter is_spurious sched_three)"
proof -
  from zero_tasks[OF run_three] run_three show ?thesis
    by (simp add: final_three_def)
qed

lemma owner_left_step:
  assumes len: "inv_len s" and st: "step idt a s = Some s'"
  shows "owner_left s' + (if is_main a then 1 else 0) \<le> owner_left s"
proof (cases a)
  case (Main c)
  with st have "main_step c s = Some s'" by simp
  then show ?thesis using Main
  proof (cases rule: main_step_SomeE)
    case (join k)
    with len have "k < num_workers s" by (simp add: inv_len_def)
    with join Main show ?thesis by (simp add: owner_left_def)
  qed (simp_all add: owner_left_def)
next
  case (Work i)
  with st have "Worker idt i s = Some s'" by simp
  then show ?thesis using Work
    by (cases rule: Worker_SomeE) (simp_all add: owner_left_def)
next
  case (Spurious i)
  with st have "spurious_wakeup i s = Some s'" by simp
  then show ?thesis using Spurious
    by (cases rule: spurious_SomeE) (simp add: owner_left_def)
qed

lemma owner_left_run:
  assumes "invariant idt n msgs s" "run idt sched s = Some s'"
  shows "length (filter is_main sched) + owner_left s' \<le> owner_left s"
  using assms
proof (induction sched arbitrary: s)
  case Nil
  then show ?case by simp
next
  case (Cons a sched)
  from Cons.prems(2) obtain s1 where
    a: "step idt a s = Some s1" and r: "run idt sched s1 = Some s'"
    by (auto split: option.splits)
  from Cons.prems(1) have "inv_len s" by (simp add: invariant_def)
  from Cons.IH[OF invariant_step[OF Cons.prems(1) a] r] owner_left_step[OF this a]
  show ?case by (simp split: if_splits)
qed

lemma no_worker_step:
  assumes inv: "invariant idt 0 msgs s" and st: "step idt a s = Some s'"
  shows "is_main a"
proof (cases a)
  case (Work i)
  from inv have "inv_len s" "num_workers s = 0" by (simp_all add: invariant_def)
  then have "workers s = []" by (simp add: inv_len_def)
  with Work st show ?thesis by (simp add: Worker_def)
next
  case (Spurious i)
  from inv have "inv_len s" "inv_cv s" "num_workers s = 0" by (simp_all add: invariant_def)
  with cv_bounded[of s] have "cv s = {}" by simp
  with Spurious st show ?thesis by (simp add: spurious_wakeup_def)
qed simp

lemma no_worker_run:
  assumes "invariant idt 0 msgs s" "run idt sched s = Some s'"
  shows "filter is_main sched = sched"
  using assms
proof (induction sched arbitrary: s)
  case Nil
  then show ?case by simp
next
  case (Cons a sched)
  from Cons.prems(2) obtain s1 where
    a: "step idt a s = Some s1" and r: "run idt sched s1 = Some s'"
    by (auto split: option.splits)
  from Cons.IH[OF invariant_step[OF Cons.prems(1) a] r] no_worker_step[OF Cons.prems(1) a]
  show ?case by simp
qed

text \<open>
  C9. The constructor accepts a worker count of zero. In every state such a pool
  reaches there is no worker thread, nothing has been taken from the queue,
  executed or written, and every submitted message is in the queue or still to be
  submitted; only the owner ever moves and it is never blocked, so every run has
  at most \<open>4 |msgs| + 6\<close> steps, after which the destructor has returned; and when
  it has returned all the submitted messages are still in the queue.
\<close>

theorem zero_workers:
  assumes "run idt sched (init 0 msgs) = Some s"
  shows "workers s = [] \<and> dequeued s = [] \<and> executed s = [] \<and> cout s = [] \<and>
         tasks s @ unsent s = msgs \<and>
         (main_pc s = Finished \<longrightarrow> tasks s = msgs) \<and>
         (main_pc s \<noteq> Finished \<longrightarrow> main_step c s \<noteq> None) \<and>
         filter is_main sched = sched \<and>
         length sched \<le> 4 * length msgs + 6"
proof -
  note inv = reachable_invariant[OF assms]
  from inv have "inv_len s" "num_workers s = 0" by (simp_all add: invariant_def)
  then have w: "workers s = []" by (simp add: inv_len_def)
  then have fl: "inflight s = []" by (simp add: inflight_def)
  from executed_by_worker[OF inv] have e1: "executed s = []" by simp
  with inv fl have "dequeued s = []" by (simp add: invariant_def inv_exec_def)
  with e1 have e: "executed s = []" "dequeued s = []" by simp_all
  from inv have cm: "inv_cm s" and qm: "inv_qm s" by (simp_all add: invariant_def)
  from inv e nothing_in_flight[OF cm fl] have c: "cout s = []"
    by (simp add: invariant_def inv_out_def partial_line_def written_by_def)
  from inv e have f: "tasks s @ unsent s = msgs" by (simp add: invariant_def inv_fifo_def)
  have fin: "tasks s = msgs" if "main_pc s = Finished"
    using f finished_state(4)[OF inv that] by simp
  have cv0: "cv s = {}"
  proof -
    from inv have "inv_len s" "inv_cv s" "num_workers s = 0" by (simp_all add: invariant_def)
    with cv_bounded[of s] show ?thesis by simp
  qed
  have free: "queue_mutex s = None" if "\<not> main_holds (main_pc s)"
    using queue_free_or_enabled[OF qm that, of idt] w by (auto simp: Worker_def)
  have live: "main_step c s \<noteq> None" if "main_pc s \<noteq> Finished"
  proof (cases "main_pc s")
    case (Enq_lock m)
    with free show ?thesis by (simp add: main_step_def)
  next
    case Dtor_lock
    with free show ?thesis by (simp add: main_step_def)
  next
    case Finished
    with that show ?thesis by simp
  qed (simp_all add: main_step_def notify_one_def cv0 w split: list.splits)
  note only_main = no_worker_run[OF invariant_init assms]
  from owner_left_run[OF invariant_init assms] only_main
  have "length sched \<le> 4 * length msgs + 6" by (simp add: owner_left_def init_def)
  with w e c f fin live only_main show ?thesis by simp
qed

theorem zero_workers_witness:
  "run example_id sched_none (init 0 [''m1'']) = Some final_none \<and>
   main_pc final_none = Finished \<and> workers final_none = [] \<and>
   tasks final_none = [''m1''] \<and> executed final_none = [] \<and>
   length sched_none = 4 * length [''m1''] + 6"
proof -
  from zero_workers[OF run_none, of 0] run_none show ?thesis
    by (simp add: final_none_def sched_none_def)
qed

end
